theory Spec2Isabelle
  imports Complex_Main
begin

section \<open>Python values used by monitor.py\<close>

text \<open>
  A Python \<open>bytes\<close> object is a list of 8-bit characters; a Python \<open>str\<close> is a list of
  Unicode code points.  \<open>str\<close> turns an ASCII literal of the source into the \<open>str\<close> it denotes.
\<close>

type_synonym bytes = string
type_synonym pystr = "nat list"

definition str :: "string \<Rightarrow> pystr" where
  "str s = map of_char s"

subsection \<open>\<open>bytes.decode("utf-8")\<close>\<close>

text \<open>
  The strict UTF-8 decoder: \<open>None\<close> stands for \<open>UnicodeDecodeError\<close>.  \<open>code_point b bs\<close> reads the
  character that starts with the byte \<open>b\<close> and returns it with the number of continuation
  bytes it used.  Overlong forms, surrogates and values above U+10FFFF are rejected.
\<close>

definition continuation_byte :: "nat \<Rightarrow> bool" where
  "continuation_byte b = (0x80 \<le> b \<and> b \<le> 0xBF)"

definition seq2 :: "nat \<Rightarrow> nat list \<Rightarrow> (nat \<times> nat) option" where
  "seq2 b bs =
     (case bs of
        c1 # r \<Rightarrow>
          if continuation_byte c1 then Some ((b - 0xC0) * 64 + (c1 - 0x80), 1) else None
      | _ \<Rightarrow> None)"

definition seq3 :: "nat \<Rightarrow> nat list \<Rightarrow> (nat \<times> nat) option" where
  "seq3 b bs =
     (case bs of
        c1 # c2 # r \<Rightarrow>
          if (if b = 0xE0 then 0xA0 else 0x80) \<le> c1
             \<and> c1 \<le> (if b = 0xED then 0x9F else 0xBF) \<and> continuation_byte c2
          then Some (((b - 0xE0) * 64 + (c1 - 0x80)) * 64 + (c2 - 0x80), 2)
          else None
      | _ \<Rightarrow> None)"

definition seq4 :: "nat \<Rightarrow> nat list \<Rightarrow> (nat \<times> nat) option" where
  "seq4 b bs =
     (case bs of
        c1 # c2 # c3 # r \<Rightarrow>
          if (if b = 0xF0 then 0x90 else 0x80) \<le> c1
             \<and> c1 \<le> (if b = 0xF4 then 0x8F else 0xBF)
             \<and> continuation_byte c2 \<and> continuation_byte c3
          then Some ((((b - 0xF0) * 64 + (c1 - 0x80)) * 64 + (c2 - 0x80)) * 64 + (c3 - 0x80), 3)
          else None
      | _ \<Rightarrow> None)"

definition code_point :: "nat \<Rightarrow> nat list \<Rightarrow> (nat \<times> nat) option" where
  "code_point b bs =
     (if b < 0x80 then Some (b, 0)
      else if 0xC2 \<le> b \<and> b \<le> 0xDF then seq2 b bs
      else if 0xE0 \<le> b \<and> b \<le> 0xEF then seq3 b bs
      else if 0xF0 \<le> b \<and> b \<le> 0xF4 then seq4 b bs
      else None)"

fun utf8 :: "nat list \<Rightarrow> pystr option" where
  "utf8 [] = Some []"
| "utf8 (b # bs) =
     (case code_point b bs of
        None \<Rightarrow> None
      | Some (cp, n) \<Rightarrow> map_option ((#) cp) (utf8 (drop n bs)))"

definition decode :: "bytes \<Rightarrow> pystr option" where
  "decode chunk = utf8 (map of_char chunk)"

subsection \<open>\<open>str.splitlines\<close>, \<open>str.strip\<close>, \<open>str.startswith\<close>, \<open>str.endswith\<close>\<close>

text \<open>
  \<open>splitlines\<close> breaks at every line boundary Python knows (\<open>\n\<close>, \<open>\r\<close>, \<open>\r\n\<close>, \<open>\v\<close>, \<open>\f\<close>,
  \<open>\x1c\<close>, \<open>\x1d\<close>, \<open>\x1e\<close>, \<open>\x85\<close>, U+2028, U+2029), drops the terminators and returns no
  empty last line.  \<open>splitlines_from cur s\<close> carries the line read so far.
\<close>

definition is_linebreak :: "nat \<Rightarrow> bool" where
  "is_linebreak c =
     (c \<in> {0x0A, 0x0B, 0x0C, 0x0D, 0x1C, 0x1D, 0x1E, 0x85, 0x2028, 0x2029})"

fun splitlines_from :: "pystr \<Rightarrow> pystr \<Rightarrow> pystr list" where
  "splitlines_from cur [] = (if cur = [] then [] else [cur])"
| "splitlines_from cur (c # cs) =
     (if c = 0x0D then
        (case cs of
           [] \<Rightarrow> [cur]
         | d # ds \<Rightarrow>
             if d = 0x0A then cur # splitlines_from [] ds
             else cur # splitlines_from [] cs)
      else if is_linebreak c then cur # splitlines_from [] cs
      else splitlines_from (cur @ [c]) cs)"

definition splitlines :: "pystr \<Rightarrow> pystr list" where
  "splitlines s = splitlines_from [] s"

text \<open>The characters \<open>str.strip()\<close> removes: those for which \<open>str.isspace\<close> holds.\<close>

definition is_space :: "nat \<Rightarrow> bool" where
  "is_space c =
     ((0x09 \<le> c \<and> c \<le> 0x0D) \<or> (0x1C \<le> c \<and> c \<le> 0x20) \<or> c = 0x85 \<or> c = 0xA0
      \<or> c = 0x1680 \<or> (0x2000 \<le> c \<and> c \<le> 0x200A) \<or> c = 0x2028 \<or> c = 0x2029
      \<or> c = 0x202F \<or> c = 0x205F \<or> c = 0x3000)"

definition strip :: "pystr \<Rightarrow> pystr" where
  "strip s = rev (dropWhile is_space (rev (dropWhile is_space s)))"

definition startswith :: "pystr \<Rightarrow> pystr \<Rightarrow> bool" where
  "startswith s p = (take (length p) s = p)"

definition endswith :: "pystr \<Rightarrow> pystr \<Rightarrow> bool" where
  "endswith s p = (length p \<le> length s \<and> drop (length s - length p) s = p)"

subsection \<open>Floats, JSON values, exceptions\<close>

text \<open>
  A float is a real number, an infinity or NaN; only its comparisons are modelled, with
  IEEE semantics (every comparison with NaN is false).  Rounding is not modelled.
\<close>

datatype pyfloat = NaN | NegInf | Finite real | PosInf

fun float_lt :: "pyfloat \<Rightarrow> pyfloat \<Rightarrow> bool" where
  "float_lt (Finite x) (Finite y) = (x < y)"
| "float_lt NegInf (Finite y) = True"
| "float_lt NegInf PosInf = True"
| "float_lt (Finite x) PosInf = True"
| "float_lt a b = False"

definition float_gt :: "pyfloat \<Rightarrow> pyfloat \<Rightarrow> bool" where
  "float_gt a b = float_lt b a"

definition float_eq :: "pyfloat \<Rightarrow> pyfloat \<Rightarrow> bool" where
  "float_eq a b = (a \<noteq> NaN \<and> a = b)"


text \<open>What \<open>json.loads\<close> returns. A \<open>JDict\<close> lists the items of a dict, whose keys are distinct.\<close>

datatype json =
    JNull
  | JBool bool
  | JInt int
  | JFloat pyfloat
  | JStr pystr
  | JList "json list"
  | JDict "(pystr \<times> json) list"

text \<open>
  The library functions the source calls and whose code is not part of the repository:
  \<open>json.loads\<close> (\<open>None\<close>: it raises), and the conversions the builtin \<open>float\<close> makes from an
  \<open>int\<close> (\<open>None\<close>: \<open>OverflowError\<close>) and from a \<open>str\<close> (\<open>None\<close>: \<open>ValueError\<close>).
\<close>

record library =
  json_loads :: "pystr \<Rightarrow> json option"
  float_int :: "int \<Rightarrow> pyfloat option"
  float_str :: "pystr \<Rightarrow> pyfloat option"

text \<open>The builtin \<open>float(v)\<close>; \<open>None\<close> stands for \<open>TypeError\<close>, \<open>ValueError\<close> or \<open>OverflowError\<close>.\<close>

fun py_float :: "library \<Rightarrow> json \<Rightarrow> pyfloat option" where
  "py_float lib (JFloat x) = Some x"
| "py_float lib (JInt n) = float_int lib n"
| "py_float lib (JBool b) = Some (Finite (if b then 1 else 0))"
| "py_float lib (JStr s) = float_str lib s"
| "py_float lib v = None"

text \<open>\<open>obj[key]\<close> for a \<open>str\<close> key; \<open>None\<close> stands for \<open>KeyError\<close> or \<open>TypeError\<close>.\<close>

fun subscript :: "json \<Rightarrow> pystr \<Rightarrow> json option" where
  "subscript (JDict items) key = map_of items key"
| "subscript v key = None"

text \<open>
  The exceptions that matter to the control flow, by their place in the class hierarchy:
  \<open>HTTPError\<close> is what \<open>raise_for_status\<close> raises and is a subclass of
  \<open>requests.exceptions.RequestException\<close>; \<open>TransportError\<close> stands for its other subclasses
  (\<open>ConnectionError\<close>, \<open>Timeout\<close>, \<open>ChunkedEncodingError\<close>, ...); \<open>OtherException\<close> for any other
  subclass of \<open>Exception\<close>; \<open>SystemExiting\<close> for a \<open>BaseException\<close> that is not an \<open>Exception\<close>
  (\<open>KeyboardInterrupt\<close>, \<open>SystemExit\<close>).
\<close>

datatype exn = HTTPError | TransportError | OtherException | SystemExiting

definition is_RequestException :: "exn \<Rightarrow> bool" where
  "is_RequestException e = (e = HTTPError \<or> e = TransportError)"

definition is_Exception :: "exn \<Rightarrow> bool" where
  "is_Exception e = (e \<noteq> SystemExiting)"

section \<open>TemperatureReading and TemperatureMonitor\<close>

text \<open>
  The dataclass does not check its fields: \<open>timestamp\<close> is whatever JSON value the payload
  holds under that key.
\<close>

record TemperatureReading =
  temperature :: pyfloat
  timestamp :: json

record TemperatureMonitor =
  safe_min :: pyfloat
  safe_max :: pyfloat
  readings :: "TemperatureReading list"

definition add_reading :: "TemperatureMonitor \<Rightarrow> TemperatureReading \<Rightarrow> TemperatureMonitor" where
  "add_reading m r = m\<lparr>readings := readings m @ [r]\<rparr>"


text \<open>
  \<open>handle_event\<close> of the demo: it chooses the alert it prints (the \<open>if\<close>/\<open>elif\<close> chain), prints
  the line and stores the reading. The console is the list of printed alerts with their
  readings.
\<close>

datatype alert = Below | Above | Boundary | Normal

definition alert_of :: "TemperatureMonitor \<Rightarrow> pyfloat \<Rightarrow> alert" where
  "alert_of m t =
     (if float_lt t (safe_min m) then Below
      else if float_gt t (safe_max m) then Above
      else if float_eq t (safe_min m) \<or> float_eq t (safe_max m) then Boundary
      else Normal)"

type_synonym console = "(alert \<times> TemperatureReading) list"

definition handle_event ::
  "TemperatureReading \<Rightarrow> TemperatureMonitor \<times> console
     \<Rightarrow> exn option \<times> TemperatureMonitor \<times> console" where
  "handle_event reading st =
     (case st of (monitor, out) \<Rightarrow>
        (None, add_reading monitor reading,
         out @ [(alert_of monitor (temperature reading), reading)]))"

section \<open>The event mapper: the \<open>try\<close> statement around \<open>json.loads\<close> and \<open>on_event\<close>\<close>

text \<open>
  A callback takes the reading and the state it works on, and returns the new state with
  \<open>None\<close> when it returns and \<open>Some e\<close> when it raises \<open>e\<close>.
\<close>

type_synonym 's callback = "TemperatureReading \<Rightarrow> 's \<Rightarrow> exn option \<times> 's"

text \<open>
  \<open>obj = json.loads(payload); r = TemperatureReading(float(obj["temperature"]),
  obj["timestamp"])\<close>: \<open>None\<close> when any of the steps raises.
\<close>

definition to_reading :: "library \<Rightarrow> pystr \<Rightarrow> TemperatureReading option" where
  "to_reading lib payload =
     (case json_loads lib payload of
        None \<Rightarrow> None
      | Some obj \<Rightarrow>
          (case subscript obj (str ''temperature'') of
             None \<Rightarrow> None
           | Some t \<Rightarrow>
               (case py_float lib t of
                  None \<Rightarrow> None
                | Some x \<Rightarrow>
                    (case subscript obj (str ''timestamp'') of
                       None \<Rightarrow> None
                     | Some ts \<Rightarrow> Some \<lparr>temperature = x, timestamp = ts\<rparr>))))"

text \<open>
  The whole \<open>try: ... except Exception: pass\<close>. \<open>Delivered\<close>: \<open>on_event\<close> returned (the line
  \<open>event_count += 1\<close> of \<open>stream\<close> is reached); \<open>Swallowed\<close>: an \<open>Exception\<close> was caught;
  \<open>Escaped e\<close>: \<open>on_event\<close> raised \<open>e\<close>, which \<open>except Exception\<close> does not catch.
\<close>

datatype outcome = Delivered | Swallowed | Escaped exn

type_synonym 's handler = "pystr \<Rightarrow> 's \<Rightarrow> outcome \<times> 's"

definition try_deliver :: "library \<Rightarrow> 's callback \<Rightarrow> 's handler" where
  "try_deliver lib on_event payload s =
     (case to_reading lib payload of
        None \<Rightarrow> (Swallowed, s)
      | Some r \<Rightarrow>
          (case on_event r s of
             (None, s') \<Rightarrow> (Delivered, s')
           | (Some e, s') \<Rightarrow> (if is_Exception e then Swallowed else Escaped e, s')))"

section \<open>The frame decoder: the body of the \<open>for chunk\<close> loops\<close>

text \<open>\<open>lines = [ln for ln in buffer.splitlines() if ln.strip() != ""]\<close>\<close>

definition lines :: "pystr \<Rightarrow> pystr list" where
  "lines buffer = filter (\<lambda>line. strip line \<noteq> []) (splitlines buffer)"

text \<open>
  \<open>for ln in lines: if ln.startswith("data:"): payload = ln[len("data:"):].strip(); try ...\<close>.
  The \<open>try\<close> statement is the parameter \<open>h\<close>; both loops of the source run it as
  \<open>try_deliver lib on_event\<close>. The number counts the deliveries (\<open>event_count\<close>).
\<close>

fun for_lines :: "'s handler \<Rightarrow> pystr list \<Rightarrow> 's \<Rightarrow> nat \<Rightarrow> exn option \<times> 's \<times> nat" where
  "for_lines h [] s event_count = (None, s, event_count)"
| "for_lines h (line # rest) s event_count =
     (if startswith line (str ''data:'') then
        (case h (strip (drop (length (str ''data:'')) line)) s of
           (Delivered, s') \<Rightarrow> for_lines h rest s' (event_count + 1)
         | (Swallowed, s') \<Rightarrow> for_lines h rest s' event_count
         | (Escaped e, s') \<Rightarrow> (Some e, s', event_count))
      else for_lines h rest s event_count)"

text \<open>
  One pass through the loop body for a received chunk, from \<open>if not chunk\<close> to \<open>buffer = ""\<close>:
  \<open>Skipped\<close> is a \<open>continue\<close>, \<open>Fed\<close> the end of the body with the new buffer, \<open>Aborted\<close> an
  exception that leaves the loop.
\<close>

datatype 's fed = Skipped | Fed pystr 's nat | Aborted exn pystr 's nat

definition feed :: "'s handler \<Rightarrow> bytes \<Rightarrow> pystr \<Rightarrow> 's \<Rightarrow> nat \<Rightarrow> 's fed" where
  "feed h chunk buffer s event_count =
     (if chunk = [] then Skipped
      else
        (case decode chunk of
           None \<Rightarrow> Skipped
         | Some ch \<Rightarrow>
             (let buffer' = buffer @ ch in
              if endswith buffer' (str ''\<newline>\<newline>'') then
                (case for_lines h (lines buffer') s event_count of
                   (None, s', n) \<Rightarrow> Fed [] s' n
                 | (Some e, s', n) \<Rightarrow> Aborted e buffer' s' n)
              else Fed buffer' s event_count)))"

section \<open>The network\<close>

text \<open>
  What the program meets at run time. A response body answers the \<open>i\<close>-th \<open>next\<close> of
  \<open>resp.iter_content(chunk_size=1)\<close> with a chunk, with the end of the stream or with an
  exception; a body may go on for ever. \<open>requests.get\<close> raises or returns a response with
  a status code. \<open>body_of\<close> is the body that delivers the chunks of a list and then ends.
\<close>

datatype read_outcome = Chunk bytes | EndOfStream | ReadRaises exn

datatype connection = ConnectRaises exn | Response nat "nat \<Rightarrow> read_outcome"

definition body_of :: "bytes list \<Rightarrow> read_outcome \<Rightarrow> nat \<Rightarrow> read_outcome" where
  "body_of chunks ending i = (if i < length chunks then Chunk (chunks ! i) else ending)"

text \<open>\<open>resp.raise_for_status()\<close> raises \<open>HTTPError\<close> for a status from 400 to 599.\<close>

definition error_status :: "nat \<Rightarrow> bool" where
  "error_status status = (400 \<le> status \<and> status < 600)"

section \<open>\<open>ApiClient.stream\<close>: the bounded session\<close>

text \<open>\<open>stop_after and event_count >= stop_after\<close>, for \<open>stop_after: Optional[int]\<close>.\<close>

definition reached :: "int option \<Rightarrow> nat \<Rightarrow> bool" where
  "reached stop_after event_count =
     (case stop_after of None \<Rightarrow> False | Some k \<Rightarrow> k \<noteq> 0 \<and> k \<le> int event_count)"

text \<open>Whether \<open>timeout\<close> is truthy, and \<open>(time.time() - start) >= timeout\<close>.\<close>

definition truthy :: "real option \<Rightarrow> bool" where
  "truthy timeout = (case timeout of None \<Rightarrow> False | Some d \<Rightarrow> d \<noteq> 0)"

definition expired :: "real option \<Rightarrow> real \<Rightarrow> real \<Rightarrow> bool" where
  "expired timeout start now = (case timeout of None \<Rightarrow> False | Some d \<Rightarrow> d \<le> now - start)"

text \<open>
  The \<open>for chunk\<close> loop of \<open>stream\<close>. \<open>clock\<close> answers the calls of \<open>time.time()\<close> in order
  (\<open>clock 0\<close> is \<open>start\<close>); \<open>i\<close> counts the reads and \<open>t\<close> the calls of the clock. The loop
  needs one unit of fuel for each read; \<open>None\<close> means that the fuel ran out. The result is
  the exception that left the function if any, the state of the callback and \<open>event_count\<close>.
\<close>

fun stream_loop ::
  "nat \<Rightarrow> 's handler \<Rightarrow> int option \<Rightarrow> real option \<Rightarrow> (nat \<Rightarrow> read_outcome) \<Rightarrow> (nat \<Rightarrow> real)
     \<Rightarrow> nat \<Rightarrow> nat \<Rightarrow> pystr \<Rightarrow> 's \<Rightarrow> nat \<Rightarrow> (exn option \<times> 's \<times> nat) option" where
  "stream_loop 0 h stop_after timeout body clock i t buffer s event_count = None"
| "stream_loop (Suc fuel) h stop_after timeout body clock i t buffer s event_count =
     (case body i of
        EndOfStream \<Rightarrow> Some (None, s, event_count)
      | ReadRaises e \<Rightarrow> Some (Some e, s, event_count)
      | Chunk chunk \<Rightarrow>
          (case feed h chunk buffer s event_count of
             Skipped \<Rightarrow>
               stream_loop fuel h stop_after timeout body clock (i + 1) t buffer s event_count
           | Aborted e b s' n \<Rightarrow> Some (Some e, s', n)
           | Fed b s' n \<Rightarrow>
               if reached stop_after n then Some (None, s', n)
               else if truthy timeout then
                 (if expired timeout (clock 0) (clock t) then Some (None, s', n)
                  else stream_loop fuel h stop_after timeout body clock (i + 1) (t + 1) b s' n)
               else stream_loop fuel h stop_after timeout body clock (i + 1) t b s' n))"

text \<open>
  \<open>stream\<close> itself: \<open>requests.get\<close>, \<open>raise_for_status\<close>, then the loop from an empty buffer.
  Nothing is caught: an exception of either call leaves the function.
\<close>

definition stream_with ::
  "nat \<Rightarrow> 's handler \<Rightarrow> int option \<Rightarrow> real option \<Rightarrow> connection \<Rightarrow> (nat \<Rightarrow> real) \<Rightarrow> 's
     \<Rightarrow> (exn option \<times> 's \<times> nat) option" where
  "stream_with fuel h stop_after timeout conn clock s =
     (case conn of
        ConnectRaises e \<Rightarrow> Some (Some e, s, 0)
      | Response status body \<Rightarrow>
          if error_status status then Some (Some HTTPError, s, 0)
          else stream_loop fuel h stop_after timeout body clock 0 1 [] s 0)"

definition stream ::
  "nat \<Rightarrow> library \<Rightarrow> 's callback \<Rightarrow> int option \<Rightarrow> real option \<Rightarrow> connection \<Rightarrow> (nat \<Rightarrow> real)
     \<Rightarrow> 's \<Rightarrow> (exn option \<times> 's \<times> nat) option" where
  "stream fuel lib on_event stop_after timeout conn clock s =
     stream_with fuel (try_deliver lib on_event) stop_after timeout conn clock s"

section \<open>\<open>ApiClient.stream_forever\<close>: the session and the reconnect supervisor\<close>

text \<open>
  The state of a run: the state of the callback, the local variable \<open>buffer\<close>, the number of
  calls of \<open>stop_event.is_set()\<close> and of \<open>requests.get\<close> made so far, and the trace of what the
  function did to the outside. The stop event is set by another thread: \<open>is_set n\<close> is the
  answer to the call number \<open>n\<close>.
\<close>

datatype effect = Check bool | Get | Read | Sleep nat

record 's run =
  user :: 's
  buffer :: pystr
  checks :: nat
  gets :: nat
  trace :: "effect list"

definition check :: "(nat \<Rightarrow> bool) \<Rightarrow> 's run \<Rightarrow> 's run" where
  "check is_set st =
     st\<lparr>checks := checks st + 1, trace := trace st @ [Check (is_set (checks st))]\<rparr>"

definition emit :: "effect \<Rightarrow> 's run \<Rightarrow> 's run" where
  "emit e st = st\<lparr>trace := trace st @ [e]\<rparr>"

text \<open>
  The \<open>for chunk\<close> loop of \<open>stream_forever\<close>: the stop event is read after each chunk arrives
  and before anything is done with it.
\<close>

fun session ::
  "nat \<Rightarrow> 's handler \<Rightarrow> (nat \<Rightarrow> bool) \<Rightarrow> (nat \<Rightarrow> read_outcome) \<Rightarrow> nat \<Rightarrow> 's run
     \<Rightarrow> (exn option \<times> 's run) option" where
  "session 0 h is_set body i st = None"
| "session (Suc fuel) h is_set body i st =
     (case body i of
        EndOfStream \<Rightarrow> Some (None, emit Read st)
      | ReadRaises e \<Rightarrow> Some (Some e, emit Read st)
      | Chunk chunk \<Rightarrow>
          (let st1 = check is_set (emit Read st) in
           if is_set (checks st) then Some (None, st1)
           else
             (case feed h chunk (buffer st1) (user st1) 0 of
                Skipped \<Rightarrow> session fuel h is_set body (i + 1) st1
              | Fed b s' n \<Rightarrow> session fuel h is_set body (i + 1) (st1\<lparr>user := s', buffer := b\<rparr>)
              | Aborted e b s' n \<Rightarrow> Some (Some e, st1\<lparr>user := s', buffer := b\<rparr>))))"

text \<open>
  The body of the \<open>try\<close>: \<open>requests.get\<close>, \<open>raise_for_status\<close>, \<open>buffer = ""\<close> and the loop.
  The result is the exception that left the \<open>with\<close> statement, if any.
\<close>

definition attempt ::
  "nat \<Rightarrow> 's handler \<Rightarrow> (nat \<Rightarrow> bool) \<Rightarrow> (nat \<Rightarrow> connection) \<Rightarrow> 's run
     \<Rightarrow> (exn option \<times> 's run) option" where
  "attempt fuel h is_set net st =
     (let st1 = emit Get (st\<lparr>gets := gets st + 1\<rparr>) in
      case net (gets st) of
        ConnectRaises e \<Rightarrow> Some (Some e, st1)
      | Response status body \<Rightarrow>
          if error_status status then Some (Some HTTPError, st1)
          else session fuel h is_set body 0 (st1\<lparr>buffer := []\<rparr>))"

text \<open>
  What follows the \<open>try\<close> body: without an exception the \<open>while\<close> loop goes round; the
  \<open>except requests.exceptions.RequestException\<close> clause reads the stop event, and breaks or
  sleeps one second and continues; any other exception leaves the function.
\<close>

datatype verdict = Continue | Exit | Raise exn

definition finish ::
  "(nat \<Rightarrow> bool) \<Rightarrow> (exn option \<times> 's run) option \<Rightarrow> (verdict \<times> 's run) option" where
  "finish is_set r =
     (case r of
        None \<Rightarrow> None
      | Some (None, st) \<Rightarrow> Some (Continue, st)
      | Some (Some e, st) \<Rightarrow>
          if is_RequestException e then
            (if is_set (checks st) then Some (Exit, check is_set st)
             else Some (Continue, emit (Sleep 1) (check is_set st)))
          else Some (Raise e, st))"

text \<open>One round of \<open>while not stop_event.is_set()\<close>: the test, then the \<open>try\<close> statement.\<close>

definition iteration ::
  "nat \<Rightarrow> 's handler \<Rightarrow> (nat \<Rightarrow> bool) \<Rightarrow> (nat \<Rightarrow> connection) \<Rightarrow> 's run
     \<Rightarrow> (verdict \<times> 's run) option" where
  "iteration fuel h is_set net st =
     (if is_set (checks st) then Some (Exit, check is_set st)
      else finish is_set (attempt fuel h is_set net (check is_set st)))"

fun supervisor ::
  "nat \<Rightarrow> 's handler \<Rightarrow> (nat \<Rightarrow> bool) \<Rightarrow> (nat \<Rightarrow> connection) \<Rightarrow> 's run
     \<Rightarrow> (exn option \<times> 's run) option" where
  "supervisor 0 h is_set net st = None"
| "supervisor (Suc fuel) h is_set net st =
     (case iteration fuel h is_set net st of
        None \<Rightarrow> None
      | Some (Continue, st') \<Rightarrow> supervisor fuel h is_set net st'
      | Some (Exit, st') \<Rightarrow> Some (None, st')
      | Some (Raise e, st') \<Rightarrow> Some (Some e, st'))"

definition start :: "'s \<Rightarrow> 's run" where
  "start s = \<lparr>user = s, buffer = [], checks = 0, gets = 0, trace = []\<rparr>"

definition stream_forever ::
  "nat \<Rightarrow> library \<Rightarrow> 's callback \<Rightarrow> (nat \<Rightarrow> bool) \<Rightarrow> (nat \<Rightarrow> connection) \<Rightarrow> 's
     \<Rightarrow> (exn option \<times> 's run) option" where
  "stream_forever fuel lib on_event is_set net s =
     supervisor fuel (try_deliver lib on_event) is_set net (start s)"

section \<open>Concrete inputs\<close>

text \<open>
  Inputs for the runs that are evaluated below. \<open>set_from k\<close> is a stop event that another
  thread sets between the calls number \<open>k - 1\<close> and \<open>k\<close> of \<open>is_set\<close>. The three networks answer
  every \<open>requests.get\<close> alike: with status 500, with a connection error, and with a stream
  of the letter x that never ends.
\<close>

definition set_from :: "nat \<Rightarrow> nat \<Rightarrow> bool" where
  "set_from k n = (k \<le> n)"


definition unreachable :: "nat \<Rightarrow> connection" where
  "unreachable i = ConnectRaises TransportError"

definition endless :: "nat \<Rightarrow> connection" where
  "endless i = Response 200 (\<lambda>j. Chunk ''x'')"

text \<open>
  A library whose \<open>json.loads\<close> knows the two payloads of the specification's example and
  raises on any other text, and the demo's monitor with an empty console.
\<close>

definition demo_loads :: "pystr \<Rightarrow> json option" where
  \<open>demo_loads p =
     (if p = str ''{"temperature": 25.5, "timestamp": "t1"}'' then
        Some (JDict [(str ''temperature'', JFloat (Finite 25.5)),
                     (str ''timestamp'', JStr (str ''t1''))])
      else if p = str ''{"temperature": 99.9, "timestamp": "t2"}'' then
        Some (JDict [(str ''temperature'', JFloat (Finite 99.9)),
                     (str ''timestamp'', JStr (str ''t2''))])
      else None)\<close>

definition demo_lib :: library where
  "demo_lib =
     \<lparr>json_loads = demo_loads, float_int = (\<lambda>n. Some (Finite (of_int n))),
      float_str = (\<lambda>s. None)\<rparr>"

definition demo_state :: "TemperatureMonitor \<times> console" where
  "demo_state = (\<lparr>safe_min = Finite 20, safe_max = Finite 80, readings = []\<rparr>, [])"

section \<open>Notions used in the statements\<close>

text \<open>
  \<open>slept st\<close> is the run after the \<open>except\<close> clause found the stop event unset and slept.
  \<open>forget\<close> blanks the variable \<open>buffer\<close> in a result, to compare two runs up to it.
  \<open>after_stop tr\<close> is the trace from the first time the stop event was seen set.
\<close>

definition slept :: "'s run \<Rightarrow> 's run" where
  "slept st = st\<lparr>checks := checks st + 1, trace := trace st @ [Check False, Sleep 1]\<rparr>"

definition forget :: "('a \<times> 's run) option \<Rightarrow> ('a \<times> 's run) option" where
  "forget x = map_option (\<lambda>(r, st). (r, st\<lparr>buffer := []\<rparr>)) x"

definition after_stop :: "effect list \<Rightarrow> effect list" where
  "after_stop tr = dropWhile (\<lambda>e. e \<noteq> Check True) tr"

definition reads_only :: "effect list \<Rightarrow> bool" where
  "reads_only tr = (Get \<notin> set tr \<and> (\<forall>n. Sleep n \<notin> set tr))"

definition observed :: "nat \<Rightarrow> effect list \<Rightarrow> exn option \<Rightarrow> nat \<Rightarrow> bool" where
  "observed k ev r n =
     (Check True \<notin> set ev
      \<or> (\<exists>ev'. ev = ev' @ [Check True] \<and> Check True \<notin> set ev' \<and> r = None \<and> k < n))"

definition observedv :: "nat \<Rightarrow> effect list \<Rightarrow> verdict \<Rightarrow> nat \<Rightarrow> bool" where
  "observedv k ev v n =
     (Check True \<notin> set ev
      \<or> (\<exists>ev'. ev = ev' @ [Check True] \<and> Check True \<notin> set ev'
            \<and> (v = Exit \<or> (v = Continue \<and> k < n))))"

section \<open>Streams of events\<close>

text \<open>
  The wire format, as the specification describes it: an event is a list of lines, each
  followed by a newline, and a blank line ends it; a stream is events one after the other.
  A \<open>field_line\<close> is a line as an event can hold it: not empty, ASCII, without a character at
  which \<open>splitlines\<close> breaks. \<open>event_payloads\<close> are the payloads of the \<open>data:\<close> lines of an
  event, in order.
\<close>

definition ascii :: "bytes \<Rightarrow> bool" where
  "ascii bs = (\<forall>c\<in>set bs. of_char c < (0x80::nat))"

definition dec :: "bytes \<Rightarrow> pystr" where
  "dec bs = map of_char bs"

definition event_bytes :: "bytes list \<Rightarrow> bytes" where
  "event_bytes ls = concat (map (\<lambda>l. l @ ''\<newline>'') ls) @ ''\<newline>''"

definition stream_bytes :: "bytes list list \<Rightarrow> bytes" where
  "stream_bytes evs = concat (map event_bytes evs)"

definition field_line :: "bytes \<Rightarrow> bool" where
  "field_line l =
     (l \<noteq> [] \<and> (\<forall>c\<in>set l. of_char c < (0x80::nat) \<and> \<not> is_linebreak (of_char c)))"

definition event_payloads :: "bytes list \<Rightarrow> pystr list" where
  "event_payloads ls =
     map (\<lambda>l. strip (drop (length (str ''data:'')) (dec l)))
       (filter (\<lambda>l. startswith (dec l) (str ''data:'')) ls)"

text \<open>
  What the frame decoder is said to do, in the words of the specification: the payloads of
  a text are its non-blank lines that start with \<open>data:\<close>, without the marker and stripped;
  \<open>deliver_all\<close> hands payloads to the \<open>try\<close> statement one after the other, until an
  exception escapes. \<open>collect\<close> is a handler that only keeps the payloads it is given.
\<close>

definition payloads :: "pystr \<Rightarrow> pystr list" where
  "payloads frame =
     map (\<lambda>line. strip (drop (length (str ''data:'')) line))
       (filter (\<lambda>line. startswith line (str ''data:'')) (lines frame))"

fun deliver_all :: "'s handler \<Rightarrow> pystr list \<Rightarrow> 's \<Rightarrow> nat \<Rightarrow> exn option \<times> 's \<times> nat" where
  "deliver_all h [] s n = (None, s, n)"
| "deliver_all h (p # ps) s n =
     (case h p s of
        (Delivered, s') \<Rightarrow> deliver_all h ps s' (n + 1)
      | (Swallowed, s') \<Rightarrow> deliver_all h ps s' n
      | (Escaped e, s') \<Rightarrow> (Some e, s', n))"

definition collect :: "pystr list handler" where
  "collect payload seen = (Delivered, seen @ [payload])"

text \<open>
  For the proofs about the read loops: \<open>feed_all\<close> runs the loop body over a list of chunks
  with no test in between, \<open>unbuffered\<close> drops the buffer from its result and \<open>fed_state\<close> the
  count from one step; \<open>flushed b cs\<close> splits what decoded chunks \<open>cs\<close> add to the buffer \<open>b\<close>
  into the text up to the last time the buffer was emptied and the rest; \<open>one_frame b cs\<close>
  says that the buffer ends with a blank line at the last chunk of \<open>cs\<close> and at no chunk
  before it.
\<close>

fun feed_all ::
  "'s handler \<Rightarrow> bytes list \<Rightarrow> pystr \<Rightarrow> 's \<Rightarrow> nat \<Rightarrow> exn option \<times> pystr \<times> 's \<times> nat" where
  "feed_all h [] b s n = (None, b, s, n)"
| "feed_all h (c # cs) b s n =
     (case feed h c b s n of
        Skipped \<Rightarrow> feed_all h cs b s n
      | Fed b' s' n' \<Rightarrow> feed_all h cs b' s' n'
      | Aborted e b' s' n' \<Rightarrow> (Some e, b', s', n'))"

definition unbuffered :: "exn option \<times> pystr \<times> 's \<times> nat \<Rightarrow> exn option \<times> 's \<times> nat" where
  "unbuffered x = (case x of (e, b, s, n) \<Rightarrow> (e, s, n))"

definition fed_state :: "'s fed \<Rightarrow> (exn option \<times> pystr \<times> 's) option" where
  "fed_state x =
     (case x of
        Skipped \<Rightarrow> None
      | Fed b s n \<Rightarrow> Some (None, b, s)
      | Aborted e b s n \<Rightarrow> Some (Some e, b, s))"

fun flushed :: "pystr \<Rightarrow> pystr list \<Rightarrow> pystr \<times> pystr" where
  "flushed b [] = ([], b)"
| "flushed b (c # cs) =
     (if c = [] then flushed b cs
      else if endswith (b @ c) (str ''\<newline>\<newline>'') then
        (case flushed [] cs of (P, R) \<Rightarrow> ((b @ c) @ P, R))
      else flushed (b @ c) cs)"

fun one_frame :: "pystr \<Rightarrow> bytes list \<Rightarrow> bool" where
  "one_frame b [] = False"
| "one_frame b [c] = (c \<noteq> [] \<and> endswith (b @ dec c) (str ''\<newline>\<newline>''))"
| "one_frame b (c # cs) =
     (\<not> endswith (b @ dec c) (str ''\<newline>\<newline>'') \<and> one_frame (b @ dec c) cs)"

text \<open>
  Three streams: the two events of the specification's example; one frame with both
  \<open>data:\<close> lines; and one event whose payload is the letter e with an acute accent, two
  bytes in UTF-8. The clock of the concrete runs stands still.
\<close>

definition example_stream :: bytes where
  \<open>example_stream =
     ''data: {"temperature": 25.5, "timestamp": "t1"}\<newline>\<newline>''
     @ ''data: {"temperature": 99.9, "timestamp": "t2"}\<newline>\<newline>''\<close>

definition two_line_frame :: bytes where
  \<open>two_line_frame =
     ''data: {"temperature": 25.5, "timestamp": "t1"}\<newline>''
     @ ''data: {"temperature": 99.9, "timestamp": "t2"}\<newline>\<newline>''\<close>

definition accented :: bytes where
  "accented = ''data: '' @ [CHR 0xC3, CHR 0xA9] @ ''\<newline>\<newline>''"

definition frozen_clock :: "nat \<Rightarrow> real" where
  "frozen_clock n = 0"

section \<open>The event mapper\<close>



lemma demo_payload_a:
  \<open>to_reading demo_lib (str ''{"temperature": 25.5, "timestamp": "t1"}'')
     = Some \<lparr>temperature = Finite 25.5, timestamp = JStr (str ''t1'')\<rparr>\<close>
  by (simp add: to_reading_def demo_lib_def demo_loads_def str_def)

lemma demo_payload_b:
  \<open>to_reading demo_lib (str ''{"temperature": 99.9, "timestamp": "t2"}'')
     = Some \<lparr>temperature = Finite 99.9, timestamp = JStr (str ''t2'')\<rparr>\<close>
  by (simp add: to_reading_def demo_lib_def demo_loads_def str_def)







section \<open>The monitor\<close>







section \<open>Steps of a run\<close>

lemma check_simps [simp]:
  "checks (check is_set st) = checks st + 1"
  "gets (check is_set st) = gets st"
  "user (check is_set st) = user st"
  "buffer (check is_set st) = buffer st"
  "trace (check is_set st) = trace st @ [Check (is_set (checks st))]"
  by (simp_all add: check_def)

lemma emit_simps [simp]:
  "checks (emit e st) = checks st"
  "gets (emit e st) = gets st"
  "user (emit e st) = user st"
  "buffer (emit e st) = buffer st"
  "trace (emit e st) = trace st @ [e]"
  by (simp_all add: emit_def)

section \<open>The supervisor\<close>

subsection \<open>No RequestException leaves the supervisor\<close>





subsection \<open>session and attempt: what they add to the trace\<close>

lemma reads_only_simps [simp]:
  "reads_only []" "reads_only (Read # tr) = reads_only tr"
  "reads_only (Check b # tr) = reads_only tr"
  "reads_only (tr @ tr') = (reads_only tr \<and> reads_only tr')"
  by (auto simp: reads_only_def)

lemma session_trace:
  "session fuel h is_set body i st = Some (r, st') \<Longrightarrow>
     gets st' = gets st \<and> (\<exists>tr. trace st' = trace st @ tr \<and> reads_only tr)"
proof (induction fuel arbitrary: i st)
  case 0
  then show ?case by simp
next
  case (Suc fuel)
  show ?case
  proof (cases "body i")
    case (Chunk chunk)
    show ?thesis
    proof (cases "is_set (checks st)")
      case True
      with Suc.prems Chunk show ?thesis by (auto simp: Let_def)
    next
      case False
      let ?st1 = "check is_set (emit Read st)"
      show ?thesis
      proof (cases "feed h chunk (buffer ?st1) (user ?st1) 0")
        case Skipped
        with Suc.prems Chunk False have "session fuel h is_set body (i + 1) ?st1 = Some (r, st')"
          by (simp add: Let_def)
        from Suc.IH[OF this] show ?thesis by auto
      next
        case (Fed b s' n)
        with Suc.prems Chunk False
        have "session fuel h is_set body (i + 1) (?st1\<lparr>user := s', buffer := b\<rparr>) = Some (r, st')"
          by (simp add: Let_def)
        from Suc.IH[OF this] show ?thesis by auto
      next
        case (Aborted e b s' n)
        with Suc.prems Chunk False show ?thesis by (auto simp: Let_def)
      qed
    qed
  next
    case EndOfStream
    with Suc.prems show ?thesis by auto
  next
    case (ReadRaises e)
    with Suc.prems show ?thesis by auto
  qed
qed

lemma attempt_trace:
  assumes "attempt fuel h is_set net st = Some (r, st')"
  shows "gets st' = gets st + 1 \<and> (\<exists>tr. trace st' = trace st @ Get # tr \<and> reads_only tr)"
proof (cases "net (gets st)")
  case (ConnectRaises e)
  with assms show ?thesis by (auto simp: attempt_def)
next
  case (Response status body)
  show ?thesis
  proof (cases "error_status status")
    case True
    with assms Response show ?thesis by (auto simp: attempt_def)
  next
    case False
    with assms Response
    have "session fuel h is_set body 0 ((emit Get (st\<lparr>gets := gets st + 1\<rparr>))\<lparr>buffer := []\<rparr>)
            = Some (r, st')"
      by (simp add: attempt_def Let_def)
    from session_trace[OF this] show ?thesis by auto
  qed
qed

subsection \<open>Transport errors: back-off and retry\<close>

lemma finish_request_exception:
  assumes "is_RequestException e"
  shows "finish is_set (Some (Some e, st2)) =
     (if is_set (checks st2)
      then Some (Exit, st2\<lparr>checks := checks st2 + 1, trace := trace st2 @ [Check True]\<rparr>)
      else Some (Continue, st2\<lparr>checks := checks st2 + 1,
                   trace := trace st2 @ [Check False, Sleep 1]\<rparr>))"
  using assms by (simp add: finish_def check_def emit_def)

lemma supervisor_stopped:
  "is_set (checks st) \<Longrightarrow>
   supervisor (Suc fuel) h is_set net st =
     Some (None, st\<lparr>checks := checks st + 1, trace := trace st @ [Check True]\<rparr>)"
  by (simp add: iteration_def check_def)

lemma finish_trace:
  assumes "finish is_set (Some (r, st1)) = Some (v, st2)"
  shows "gets st2 = gets st1 \<and> (\<exists>tr. trace st2 = trace st1 @ tr \<and> Get \<notin> set tr)"
  using assms
  by (auto simp: finish_def check_def emit_def split: option.splits if_splits)

lemma iteration_one_attempt:
  assumes "\<not> is_set (checks st)" and "iteration fuel h is_set net st = Some (v, st')"
  shows "gets st' = gets st + 1
     \<and> (\<exists>tr. trace st' = trace st @ [Check False, Get] @ tr \<and> Get \<notin> set tr)"
proof -
  from assms obtain r st1 where
    att: "attempt fuel h is_set net (check is_set st) = Some (r, st1)"
    and fin: "finish is_set (Some (r, st1)) = Some (v, st')"
    by (cases "attempt fuel h is_set net (check is_set st)")
       (auto simp: iteration_def finish_def)
  from attempt_trace[OF att] obtain tr1 where
    "gets st1 = gets st + 1" "trace st1 = trace st @ [Check False] @ Get # tr1" "reads_only tr1"
    using assms(1) by auto
  moreover from finish_trace[OF fin] obtain tr2 where
    "gets st' = gets st1" "trace st' = trace st1 @ tr2" "Get \<notin> set tr2"
    by auto
  ultimately show ?thesis by (auto simp: reads_only_def)
qed

subsection \<open>The buffer of a dropped connection\<close>

lemma attempt_fresh:
  "forget (attempt fuel h is_set net (st\<lparr>buffer := b\<rparr>)) = forget (attempt fuel h is_set net st)"
  by (simp add: attempt_def forget_def emit_def Let_def split: connection.splits)

lemma same_but_buffer:
  "st\<lparr>buffer := []\<rparr> = st'\<lparr>buffer := []\<rparr> \<Longrightarrow> \<exists>b. st = st'\<lparr>buffer := b\<rparr>"
  by (rule exI[of _ "buffer st"]) (cases st; cases st'; simp)

lemma forget_eq_cases:
  assumes "forget x = forget y"
  shows "(x = None \<and> y = None) \<or> (\<exists>r st b. x = Some (r, st\<lparr>buffer := b\<rparr>) \<and> y = Some (r, st))"
proof (cases x)
  case None
  with assms show ?thesis by (cases y) (auto simp: forget_def)
next
  case (Some p)
  obtain r st where p: "p = (r, st)" by (cases p)
  from assms Some obtain q where y: "y = Some q" by (cases y) (auto simp: forget_def)
  obtain r' st' where q: "q = (r', st')" by (cases q)
  from assms Some p y q have "r = r'" "st\<lparr>buffer := []\<rparr> = st'\<lparr>buffer := []\<rparr>"
    by (auto simp: forget_def)
  with same_but_buffer obtain b where "st = st'\<lparr>buffer := b\<rparr>" by blast
  with Some p y q \<open>r = r'\<close> show ?thesis by auto
qed

lemma finish_buffer:
  "forget (finish is_set (Some (r, st\<lparr>buffer := b\<rparr>))) = forget (finish is_set (Some (r, st)))"
  by (simp add: finish_def forget_def check_def emit_def split: option.splits)

lemma iteration_fresh:
  "forget (iteration fuel h is_set net (st\<lparr>buffer := b\<rparr>)) = forget (iteration fuel h is_set net st)"
proof (cases "is_set (checks st)")
  case True
  then show ?thesis by (simp add: iteration_def forget_def check_def)
next
  case False
  have c: "check is_set (st\<lparr>buffer := b\<rparr>) = (check is_set st)\<lparr>buffer := b\<rparr>"
    by (simp add: check_def)
  from forget_eq_cases[OF attempt_fresh[where fuel=fuel and h=h and is_set=is_set and net=net and st="check is_set st" and b=b]]
  show ?thesis
  proof
    assume "attempt fuel h is_set net (check is_set st\<lparr>buffer := b\<rparr>) = None
        \<and> attempt fuel h is_set net (check is_set st) = None"
    with False show ?thesis by (simp add: iteration_def c)
  next
    assume "\<exists>r st' b'. attempt fuel h is_set net (check is_set st\<lparr>buffer := b\<rparr>)
               = Some (r, st'\<lparr>buffer := b'\<rparr>)
        \<and> attempt fuel h is_set net (check is_set st) = Some (r, st')"
    then obtain r st' b' where
      "attempt fuel h is_set net (check is_set st\<lparr>buffer := b\<rparr>) = Some (r, st'\<lparr>buffer := b'\<rparr>)"
      "attempt fuel h is_set net (check is_set st) = Some (r, st')"
      by blast
    with False show ?thesis by (simp add: iteration_def c finish_buffer)
  qed
qed

lemma supervisor_fresh:
  "forget (supervisor fuel h is_set net (st\<lparr>buffer := b\<rparr>)) = forget (supervisor fuel h is_set net st)"
proof (induction fuel arbitrary: st b)
  case 0
  show ?case by simp
next
  case (Suc fuel)
  from forget_eq_cases[OF iteration_fresh[where fuel=fuel and h=h and is_set=is_set and net=net and st=st and b=b]]
  show ?case
  proof
    assume "iteration fuel h is_set net (st\<lparr>buffer := b\<rparr>) = None
        \<and> iteration fuel h is_set net st = None"
    then show ?thesis by simp
  next
    assume "\<exists>r st' b'. iteration fuel h is_set net (st\<lparr>buffer := b\<rparr>) = Some (r, st'\<lparr>buffer := b'\<rparr>)
        \<and> iteration fuel h is_set net st = Some (r, st')"
    then obtain v st' b' where
      "iteration fuel h is_set net (st\<lparr>buffer := b\<rparr>) = Some (v, st'\<lparr>buffer := b'\<rparr>)"
      "iteration fuel h is_set net st = Some (v, st')"
      by blast
    then show ?thesis
      using Suc.IH[where st=st' and b=b'] by (cases v) (simp_all add: forget_def)
  qed
qed

subsection \<open>Once the stop event is set\<close>

lemma session_dropped_chunk:
  assumes "is_set (checks st)" and "body i = Chunk c"
  shows "session (Suc fuel) h is_set body i st =
     Some (None, st\<lparr>checks := checks st + 1, trace := trace st @ [Read, Check True]\<rparr>)"
  using assms by (simp add: check_def emit_def)

lemma session_returns:
  assumes mono: "\<And>m. k \<le> m \<Longrightarrow> is_set m"
  shows "k - checks st < fuel \<Longrightarrow>
     \<exists>r st'. session fuel h is_set body i st = Some (r, st')
        \<and> checks st \<le> checks st' \<and> checks st' \<le> max k (checks st) + 1"
proof (induction fuel arbitrary: i st)
  case 0
  then show ?case by simp
next
  case (Suc fuel)
  show ?case
  proof (cases "body i")
    case EndOfStream
    then show ?thesis by simp
  next
    case (ReadRaises e)
    then show ?thesis by simp
  next
    case (Chunk chunk)
    show ?thesis
    proof (cases "is_set (checks st)")
      case True
      with Chunk show ?thesis by (simp add: Let_def)
    next
      case False
      then have lt: "checks st < k" using mono by (meson not_le)
      let ?st1 = "check is_set (emit Read st)"
      show ?thesis
      proof (cases "feed h chunk (buffer ?st1) (user ?st1) 0")
        case Skipped
        have "k - checks ?st1 < fuel" using Suc.prems lt by simp
        from Suc.IH[OF this, of "i + 1"] obtain r st' where
          "session fuel h is_set body (i + 1) ?st1 = Some (r, st')"
          "checks ?st1 \<le> checks st'" "checks st' \<le> max k (checks ?st1) + 1"
          by blast
        with Chunk False Skipped lt show ?thesis by (simp add: Let_def)
      next
        case (Fed b s' n)
        let ?st2 = "?st1\<lparr>user := s', buffer := b\<rparr>"
        have "k - checks ?st2 < fuel" using Suc.prems lt by simp
        from Suc.IH[OF this, of "i + 1"] obtain r st' where
          "session fuel h is_set body (i + 1) ?st2 = Some (r, st')"
          "checks ?st2 \<le> checks st'" "checks st' \<le> max k (checks ?st2) + 1"
          by blast
        with Chunk False Fed lt show ?thesis by (simp add: Let_def)
      next
        case (Aborted e b s' n)
        with Chunk False lt show ?thesis by (simp add: Let_def)
      qed
    qed
  qed
qed

lemma attempt_returns:
  assumes mono: "\<And>m. k \<le> m \<Longrightarrow> is_set m" and "k - checks st < fuel"
  shows "\<exists>r st'. attempt fuel h is_set net st = Some (r, st')
        \<and> checks st \<le> checks st' \<and> checks st' \<le> max k (checks st) + 1"
proof (cases "net (gets st)")
  case (ConnectRaises e)
  then show ?thesis by (simp add: attempt_def)
next
  case (Response status body)
  show ?thesis
  proof (cases "error_status status")
    case True
    with Response show ?thesis by (simp add: attempt_def)
  next
    case False
    let ?st1 = "(emit Get (st\<lparr>gets := gets st + 1\<rparr>))\<lparr>buffer := []\<rparr>"
    have "k - checks ?st1 < fuel" using assms(2) by simp
    from session_returns[where is_set=is_set, OF mono this, of h body 0]
    show ?thesis using Response False by (simp add: attempt_def Let_def)
  qed
qed

lemma iteration_returns:
  assumes mono: "\<And>m. k \<le> m \<Longrightarrow> is_set m" and "k - checks st \<le> fuel"
  shows "\<exists>v st'. iteration fuel h is_set net st = Some (v, st')
        \<and> checks st < checks st'
        \<and> checks st' \<le> (if k \<le> checks st then checks st + 1 else k + 2)
        \<and> (v = Continue \<longrightarrow> checks st' \<le> k + 1)"
proof (cases "is_set (checks st)")
  case True
  have "k \<le> checks st \<or> checks st < k" by arith
  with True show ?thesis by (auto simp: iteration_def)
next
  case False
  then have lt: "checks st < k" using mono by (meson not_le)
  let ?st0 = "check is_set st"
  have "k - checks ?st0 < fuel" using assms(2) lt by simp
  from attempt_returns[where is_set=is_set, OF mono this, of h net] obtain r st1 where
    att: "attempt fuel h is_set net ?st0 = Some (r, st1)"
    and lo: "checks ?st0 \<le> checks st1" and hi: "checks st1 \<le> max k (checks ?st0) + 1"
    by blast
  from lt hi have hi': "checks st1 \<le> k + 1" by simp
  from lo have lo': "checks st < checks st1" by simp
  show ?thesis
  proof (cases r)
    case None
    with att False lt lo' hi' show ?thesis by (simp add: iteration_def finish_def)
  next
    case (Some e)
    show ?thesis
    proof (cases "is_RequestException e")
      case True
      have "is_set (checks st1) \<or> checks st1 < k" using mono by (meson not_le)
      with att False Some True lt lo' hi' show ?thesis
        by (auto simp: iteration_def finish_def)
    next
      case nr: False
      with att False Some lt lo' hi' show ?thesis by (simp add: iteration_def finish_def)
    qed
  qed
qed

lemma supervisor_returns:
  assumes mono: "\<And>m. k \<le> m \<Longrightarrow> is_set m"
  shows "k - checks st < fuel \<Longrightarrow>
     \<exists>r st'. supervisor fuel h is_set net st = Some (r, st')
        \<and> checks st' \<le> (if k \<le> checks st then checks st + 1 else k + 2)"
proof (induction fuel arbitrary: st)
  case 0
  then show ?case by simp
next
  case (Suc fuel)
  have "k - checks st \<le> fuel" using Suc.prems by simp
  from iteration_returns[where is_set=is_set, OF mono this, of h net] obtain v st1 where
    it: "iteration fuel h is_set net st = Some (v, st1)"
    and lo: "checks st < checks st1"
    and hi: "checks st1 \<le> (if k \<le> checks st then checks st + 1 else k + 2)"
    and co: "v = Continue \<longrightarrow> checks st1 \<le> k + 1"
    by blast
  show ?case
  proof (cases v)
    case Continue
    have nk: "\<not> k \<le> checks st"
    proof
      assume "k \<le> checks st"
      then have "is_set (checks st)" by (rule mono)
      with it Continue show False by (simp add: iteration_def)
    qed
    have "k - checks st1 < fuel" using Suc.prems lo nk by simp
    from Suc.IH[OF this] obtain r st' where
      su: "supervisor fuel h is_set net st1 = Some (r, st')"
      and b: "checks st' \<le> (if k \<le> checks st1 then checks st1 + 1 else k + 2)"
      by blast
    from nk b co Continue have "checks st' \<le> (if k \<le> checks st then checks st + 1 else k + 2)"
      by (simp split: if_splits)
    with it Continue su show ?thesis by simp
  next
    case Exit
    with it hi show ?thesis by simp
  next
    case (Raise e)
    with it hi show ?thesis by simp
  qed
qed

lemma after_stop_append:
  "after_stop (tr @ tr') =
     (if Check True \<in> set tr then after_stop tr @ tr' else after_stop tr')"
  by (auto simp: after_stop_def dropWhile_append)

lemma after_stop_none: "Check True \<notin> set tr \<Longrightarrow> after_stop tr = []"
  by (auto simp: after_stop_def)

lemma after_stop_last: "Check True \<notin> set tr \<Longrightarrow> after_stop (tr @ [Check True]) = [Check True]"
  by (simp add: after_stop_def dropWhile_append)

lemma observed_prepend:
  assumes "Check True \<notin> set pre" and "observed k ev r n"
  shows "observed k (pre @ ev) r n"
proof -
  from assms(2) consider "Check True \<notin> set ev"
    | ev' where "ev = ev' @ [Check True]" "Check True \<notin> set ev'" "r = None" "k < n"
    unfolding observed_def by blast
  then show ?thesis
  proof cases
    case 1
    with assms(1) show ?thesis by (simp add: observed_def)
  next
    case 2
    with assms(1) have "pre @ ev = (pre @ ev') @ [Check True]" "Check True \<notin> set (pre @ ev')"
      by simp_all
    with 2 show ?thesis unfolding observed_def by blast
  qed
qed

lemma session_observed:
  assumes thr: "\<And>m. is_set m = (k \<le> m)"
  shows "session fuel h is_set body i st = Some (r, st') \<Longrightarrow>
     \<exists>ev. trace st' = trace st @ ev \<and> observed k ev r (checks st')"
proof (induction fuel arbitrary: i st)
  case 0
  then show ?case by simp
next
  case (Suc fuel)
  show ?case
  proof (cases "body i")
    case EndOfStream
    with Suc.prems show ?thesis by (auto simp: observed_def)
  next
    case (ReadRaises e)
    with Suc.prems show ?thesis by (auto simp: observed_def)
  next
    case (Chunk chunk)
    show ?thesis
    proof (cases "is_set (checks st)")
      case True
      then have "k \<le> checks st" using thr by simp
      with Suc.prems Chunk True have "trace st' = trace st @ [Read, Check True]"
        "r = None" "k < checks st'"
        by (auto simp: Let_def)
      then have "trace st' = trace st @ [Read, Check True]
          \<and> observed k [Read, Check True] r (checks st')"
        unfolding observed_def by (intro conjI disjI2 exI[of _ "[Read]"]) simp_all
      then show ?thesis by blast
    next
      case False
      let ?st1 = "check is_set (emit Read st)"
      have t1: "trace ?st1 = trace st @ [Read, Check False]" using False by simp
      have step: "\<exists>ev. trace st' = trace st @ ev \<and> observed k ev r (checks st')"
        if "session fuel h is_set body (i + 1) st2 = Some (r, st')"
          and "trace st2 = trace ?st1" for st2
      proof -
        from Suc.IH[OF that(1)] obtain ev where
          ev: "trace st' = trace st2 @ ev" "observed k ev r (checks st')" by blast
        have "observed k ([Read, Check False] @ ev) r (checks st')"
          using ev(2) by (intro observed_prepend) simp_all
        with ev(1) that(2) t1 show ?thesis by auto
      qed
      show ?thesis
      proof (cases "feed h chunk (buffer ?st1) (user ?st1) 0")
        case Skipped
        with Suc.prems Chunk False have "session fuel h is_set body (i + 1) ?st1 = Some (r, st')"
          by (simp add: Let_def)
        from step[OF this] show ?thesis by simp
      next
        case (Fed b s' n)
        with Suc.prems Chunk False
        have "session fuel h is_set body (i + 1) (?st1\<lparr>user := s', buffer := b\<rparr>) = Some (r, st')"
          by (simp add: Let_def)
        from step[OF this] show ?thesis by simp
      next
        case (Aborted e b s' n)
        with Suc.prems Chunk False have "trace st' = trace st @ [Read, Check False]"
          by (auto simp: Let_def)
        then show ?thesis by (auto simp: observed_def)
      qed
    qed
  qed
qed

lemma attempt_observed:
  assumes thr: "\<And>m. is_set m = (k \<le> m)"
    and "attempt fuel h is_set net st = Some (r, st')"
  shows "\<exists>ev. trace st' = trace st @ ev \<and> observed k ev r (checks st')"
proof (cases "net (gets st)")
  case (ConnectRaises e)
  with assms(2) have "trace st' = trace st @ [Get]" by (auto simp: attempt_def)
  then show ?thesis by (auto simp: observed_def)
next
  case (Response status body)
  show ?thesis
  proof (cases "error_status status")
    case True
    with assms(2) Response have "trace st' = trace st @ [Get]" by (auto simp: attempt_def)
    then show ?thesis by (auto simp: observed_def)
  next
    case False
    let ?st1 = "(emit Get (st\<lparr>gets := gets st + 1\<rparr>))\<lparr>buffer := []\<rparr>"
    from assms(2) Response False have "session fuel h is_set body 0 ?st1 = Some (r, st')"
      by (simp add: attempt_def Let_def)
    from session_observed[where is_set=is_set, OF thr this] obtain ev where
      ev: "trace st' = trace ?st1 @ ev" "observed k ev r (checks st')" by blast
    have "observed k ([Get] @ ev) r (checks st')"
      using ev(2) by (intro observed_prepend) simp_all
    with ev(1) show ?thesis by auto
  qed
qed

lemma finish_observed:
  assumes thr: "\<And>m. is_set m = (k \<le> m)"
    and "finish is_set (Some (r, st1)) = Some (v, st')"
    and "trace st1 = trace st @ ev" and "observed k ev r (checks st1)"
  shows "\<exists>ev. trace st' = trace st @ ev \<and> observedv k ev v (checks st')"
proof (cases r)
  case None
  with assms(2) have "v = Continue" "st' = st1" by (auto simp: finish_def)
  with assms(3,4) None have "trace st' = trace st @ ev \<and> observedv k ev v (checks st')"
    by (auto simp: observed_def observedv_def)
  then show ?thesis by blast
next
  case (Some e)
  with assms(4) have no: "Check True \<notin> set ev" by (auto simp: observed_def)
  show ?thesis
  proof (cases "is_RequestException e")
    case False
    with assms(2) Some have "st' = st1" by (auto simp: finish_def)
    with assms(3) no have "trace st' = trace st @ ev \<and> observedv k ev v (checks st')"
      by (auto simp: observedv_def)
    then show ?thesis by blast
  next
    case True
    show ?thesis
    proof (cases "is_set (checks st1)")
      case set: True
      with assms(2) Some True have "v = Exit" "trace st' = trace st1 @ [Check True]"
        by (auto simp: finish_def)
      with assms(3) no have "trace st' = trace st @ (ev @ [Check True])
          \<and> observedv k (ev @ [Check True]) v (checks st')"
        unfolding observedv_def by auto
      then show ?thesis by blast
    next
      case unset: False
      with assms(2) Some True have "trace st' = trace st1 @ [Check False, Sleep 1]"
        by (auto simp: finish_def)
      with assms(3) no have "trace st' = trace st @ (ev @ [Check False, Sleep 1])
          \<and> observedv k (ev @ [Check False, Sleep 1]) v (checks st')"
        unfolding observedv_def by auto
      then show ?thesis by blast
    qed
  qed
qed

lemma observedv_prepend:
  assumes "Check True \<notin> set pre" and "observedv k ev v n"
  shows "observedv k (pre @ ev) v n"
proof -
  from assms(2) consider "Check True \<notin> set ev"
    | ev' where "ev = ev' @ [Check True]" "Check True \<notin> set ev'"
        "v = Exit \<or> (v = Continue \<and> k < n)"
    unfolding observedv_def by blast
  then show ?thesis
  proof cases
    case 1
    with assms(1) show ?thesis by (simp add: observedv_def)
  next
    case 2
    with assms(1) have "pre @ ev = (pre @ ev') @ [Check True]" "Check True \<notin> set (pre @ ev')"
      by simp_all
    with 2 show ?thesis unfolding observedv_def by blast
  qed
qed

lemma iteration_observed:
  assumes thr: "\<And>m. is_set m = (k \<le> m)"
    and "iteration fuel h is_set net st = Some (v, st')"
  shows "\<exists>ev. trace st' = trace st @ ev \<and> observedv k ev v (checks st')"
proof (cases "is_set (checks st)")
  case True
  with assms(2) have "v = Exit" "trace st' = trace st @ [Check True]"
    by (auto simp: iteration_def)
  then have "trace st' = trace st @ [Check True] \<and> observedv k [Check True] v (checks st')"
    unfolding observedv_def by auto
  then show ?thesis by blast
next
  case False
  let ?st0 = "check is_set st"
  from assms(2) False obtain r st1 where
    att: "attempt fuel h is_set net ?st0 = Some (r, st1)"
    and fin: "finish is_set (Some (r, st1)) = Some (v, st')"
    by (cases "attempt fuel h is_set net ?st0") (auto simp: iteration_def finish_def)
  from attempt_observed[where is_set=is_set, OF thr att] obtain ev where
    ev: "trace st1 = trace ?st0 @ ev" "observed k ev r (checks st1)" by blast
  from finish_observed[where is_set=is_set, OF thr fin ev] obtain ev2 where
    ev2: "trace st' = trace ?st0 @ ev2" "observedv k ev2 v (checks st')" by blast
  have "observedv k ([Check False] @ ev2) v (checks st')"
    using ev2(2) by (intro observedv_prepend) simp_all
  with ev2(1) False show ?thesis by auto
qed

lemma supervisor_quiet:
  assumes thr: "\<And>m. is_set m = (k \<le> m)"
  shows "supervisor fuel h is_set net st = Some (r, st') \<Longrightarrow>
     \<exists>ev. trace st' = trace st @ ev
        \<and> after_stop ev \<in> {[], [Check True], [Check True, Check True]}"
proof (induction fuel arbitrary: st)
  case 0
  then show ?case by simp
next
  case (Suc fuel)
  from Suc.prems obtain v st1 where it: "iteration fuel h is_set net st = Some (v, st1)"
    by (cases "iteration fuel h is_set net st") auto
  from iteration_observed[where is_set=is_set, OF thr it] obtain ev where
    ev: "trace st1 = trace st @ ev" "observedv k ev v (checks st1)" by blast
  have short: "after_stop ev \<in> {[], [Check True]}"
    using ev(2) unfolding observedv_def
    by (auto simp: after_stop_none after_stop_last)
  show ?case
  proof (cases v)
    case Exit
    with Suc.prems it have "st' = st1" by simp
    with ev(1) short show ?thesis by auto
  next
    case (Raise e)
    with Suc.prems it have "st' = st1" by simp
    with ev(1) short show ?thesis by auto
  next
    case Continue
    with Suc.prems it have su: "supervisor fuel h is_set net st1 = Some (r, st')" by simp
    from ev(2) consider "Check True \<notin> set ev"
      | ev' where "ev = ev' @ [Check True]" "Check True \<notin> set ev'" "k < checks st1"
      unfolding observedv_def using Continue by auto
    then show ?thesis
    proof cases
      case 1
      from Suc.IH[OF su] obtain ev2 where
        "trace st' = trace st1 @ ev2"
        "after_stop ev2 \<in> {[], [Check True], [Check True, Check True]}" by blast
      with ev(1) 1 have "trace st' = trace st @ (ev @ ev2)
          \<and> after_stop (ev @ ev2) \<in> {[], [Check True], [Check True, Check True]}"
        by (simp add: after_stop_append)
      then show ?thesis by blast
    next
      case 2
      then have "is_set (checks st1)" using thr by simp
      with su have "trace st' = trace st1 @ [Check True]"
        by (cases fuel) (auto simp: iteration_def)
      with ev(1) 2 have "trace st' = trace st @ (ev @ [Check True])
          \<and> after_stop (ev @ [Check True]) = [Check True, Check True]"
        by (simp add: after_stop_append after_stop_last) (simp add: after_stop_def)
      then show ?thesis by blast
    qed
  qed
qed

section \<open>The claims about the supervisor\<close>




text \<open>
  C4. Take a round of the \<open>while\<close> loop whose attempt ends with a \<open>RequestException\<close>
  (a transport error is one), in the state \<open>sta\<close>. If the \<open>except\<close> clause finds the stop event
  set, \<open>stream_forever\<close> returns at once: nothing is added to the trace but that test.
  Otherwise it sleeps one second and goes back to the \<open>while\<close> test. If that test finds the
  event set, the function returns with no further attempt. Otherwise the round that
  follows is one new attempt: \<open>requests.get\<close> is called exactly once in it, right after
  the sleep and the test.
\<close>

theorem transport_error_backoff:
  assumes "\<not> is_set (checks st)"
    and "attempt fuel h is_set net (check is_set st) = Some (Some e, sta)"
    and "is_RequestException e"
  shows
    "(is_set (checks sta) \<longrightarrow>
        supervisor (Suc fuel) h is_set net st =
          Some (None, sta\<lparr>checks := checks sta + 1, trace := trace sta @ [Check True]\<rparr>))
     \<and> (\<not> is_set (checks sta) \<longrightarrow>
          iteration fuel h is_set net st = Some (Continue, slept sta)
          \<and> supervisor (Suc fuel) h is_set net st = supervisor fuel h is_set net (slept sta))
     \<and> (is_set (checks sta + 1) \<longrightarrow>
          supervisor (Suc n) h is_set net (slept sta) =
            Some (None, sta\<lparr>checks := checks sta + 2,
                    trace := trace sta @ [Check False, Sleep 1, Check True]\<rparr>))
     \<and> (\<not> is_set (checks sta + 1) \<longrightarrow>
          iteration n h is_set net (slept sta) =
            finish is_set (attempt n h is_set net (check is_set (slept sta)))
          \<and> (\<forall>v stn. iteration n h is_set net (slept sta) = Some (v, stn) \<longrightarrow>
                gets stn = gets sta + 1
                \<and> (\<exists>tr. trace stn = trace sta @ [Check False, Sleep 1, Check False, Get] @ tr
                      \<and> Get \<notin> set tr)))"
proof (intro conjI impI allI)
  assume "is_set (checks sta)"
  with assms show "supervisor (Suc fuel) h is_set net st =
      Some (None, sta\<lparr>checks := checks sta + 1, trace := trace sta @ [Check True]\<rparr>)"
    by (simp add: iteration_def finish_request_exception)
next
  assume "\<not> is_set (checks sta)"
  with assms show it: "iteration fuel h is_set net st = Some (Continue, slept sta)"
    by (simp add: iteration_def finish_request_exception slept_def)
  then show "supervisor (Suc fuel) h is_set net st = supervisor fuel h is_set net (slept sta)"
    by simp
next
  assume "is_set (checks sta + 1)"
  then have "is_set (checks (slept sta))" by (simp add: slept_def)
  from supervisor_stopped[where is_set=is_set and st="slept sta" and fuel=n and h=h and net=net, OF this]
  show "supervisor (Suc n) h is_set net (slept sta) =
      Some (None, sta\<lparr>checks := checks sta + 2,
              trace := trace sta @ [Check False, Sleep 1, Check True]\<rparr>)"
    by (simp add: slept_def)
next
  assume "\<not> is_set (checks sta + 1)"
  then show "iteration n h is_set net (slept sta) =
      finish is_set (attempt n h is_set net (check is_set (slept sta)))"
    by (simp add: iteration_def slept_def)
next
  fix v stn
  assume ns: "\<not> is_set (checks sta + 1)"
    and it: "iteration n h is_set net (slept sta) = Some (v, stn)"
  from ns have "\<not> is_set (checks (slept sta))" by (simp add: slept_def)
  from iteration_one_attempt[OF this it]
  show "gets stn = gets sta + 1" by (simp add: slept_def)
next
  fix v stn
  assume ns: "\<not> is_set (checks sta + 1)"
    and it: "iteration n h is_set net (slept sta) = Some (v, stn)"
  from ns have "\<not> is_set (checks (slept sta))" by (simp add: slept_def)
  from iteration_one_attempt[OF this it]
  show "\<exists>tr. trace stn = trace sta @ [Check False, Sleep 1, Check False, Get] @ tr \<and> Get \<notin> set tr"
    by (simp add: slept_def)
qed

theorem transport_error_backoff_witness:
  "\<not> set_from 9 (checks (start demo_state))
   \<and> attempt 1 (try_deliver demo_lib handle_event) (set_from 9) unreachable
        (check (set_from 9) (start demo_state))
      = Some (Some TransportError,
          \<lparr>user = demo_state, buffer = [], checks = 1, gets = 1, trace = [Check False, Get]\<rparr>)
   \<and> is_RequestException TransportError
   \<and> iteration 1 (try_deliver demo_lib handle_event) (set_from 9) unreachable (start demo_state)
      = Some (Continue,
          \<lparr>user = demo_state, buffer = [], checks = 2, gets = 1,
           trace = [Check False, Get, Check False, Sleep 1]\<rparr>)"
  using transport_error_backoff[where is_set="set_from 9" and st="start demo_state" and fuel=1
      and h="try_deliver demo_lib handle_event" and net=unreachable and e=TransportError
      and sta="\<lparr>user = demo_state, buffer = [], checks = 1, gets = 1, trace = [Check False, Get]\<rparr>"]
  by (simp add: set_from_def start_def attempt_def unreachable_def check_def emit_def
      is_RequestException_def slept_def)

text \<open>
  C5. Each attempt that gets a response without error status runs its read loop from the
  empty buffer, and what the variable \<open>buffer\<close> held before an attempt, or before any number
  of rounds of the supervisor, has no effect on the result, on the state of the callback
  or on the trace: two runs that differ only in that content end alike, up to the buffer.
\<close>

theorem fresh_buffer_per_connection:
  "(net (gets st) = Response status body \<and> \<not> error_status status \<longrightarrow>
      attempt fuel h is_set net st =
        session fuel h is_set body 0
          (st\<lparr>gets := gets st + 1, buffer := [], trace := trace st @ [Get]\<rparr>))
   \<and> forget (attempt fuel h is_set net (st\<lparr>buffer := b\<rparr>)) = forget (attempt fuel h is_set net st)
   \<and> forget (supervisor fuel h is_set net (st\<lparr>buffer := b\<rparr>))
       = forget (supervisor fuel h is_set net st)"
  by (simp add: attempt_fresh supervisor_fresh) (cases st, simp add: attempt_def emit_def)

theorem fresh_buffer_per_connection_witness:
  "endless (gets (start demo_state)) = Response 200 (\<lambda>j. Chunk ''x'') \<and> \<not> error_status 200
   \<and> attempt 3 (try_deliver demo_lib handle_event) (set_from 3) endless
        ((start demo_state)\<lparr>buffer := str ''stale''\<rparr>)
      = session 3 (try_deliver demo_lib handle_event) (set_from 3) (\<lambda>j. Chunk ''x'') 0
          \<lparr>user = demo_state, buffer = [], checks = 0, gets = 1, trace = [Get]\<rparr>"
  using fresh_buffer_per_connection[where net=endless
      and st="(start demo_state)\<lparr>buffer := str ''stale''\<rparr>" and status=200
      and body="\<lambda>j. Chunk ''x''" and fuel=3 and h="try_deliver demo_lib handle_event"
      and is_set="set_from 3"]
  by (simp add: endless_def error_status_def start_def)

text \<open>
  C6. The stop event is set from the call number \<open>k\<close> of \<open>is_set\<close> on. A chunk that arrives
  when the event is set is dropped unprocessed and the read loop ends without another read;
  the \<open>while\<close> test then ends the function. Whatever the network does, for ever if it likes,
  \<open>stream_forever\<close> returns as soon as the fuel exceeds the number of tests still to come
  before \<open>k\<close>, after at most two tests beyond \<open>k\<close>, and what follows the first test that saw
  the event set in the trace is at most one more such test: no read, no request, no sleep.
\<close>

theorem stop_is_prompt:
  "(k \<le> checks st \<and> body i = Chunk c \<longrightarrow>
      session (Suc fuel) h (set_from k) body i st =
        Some (None, st\<lparr>checks := checks st + 1, trace := trace st @ [Read, Check True]\<rparr>))
   \<and> (k \<le> checks st \<longrightarrow>
        supervisor (Suc fuel) h (set_from k) net st =
          Some (None, st\<lparr>checks := checks st + 1, trace := trace st @ [Check True]\<rparr>))
   \<and> (k - checks st < fuel \<longrightarrow>
        (\<exists>r st' ev. supervisor fuel h (set_from k) net st = Some (r, st')
            \<and> checks st' \<le> max k (checks st) + 2
            \<and> trace st' = trace st @ ev
            \<and> after_stop ev \<in> {[], [Check True], [Check True, Check True]}))"
proof (intro conjI impI)
  assume "k \<le> checks st \<and> body i = Chunk c"
  then show "session (Suc fuel) h (set_from k) body i st =
      Some (None, st\<lparr>checks := checks st + 1, trace := trace st @ [Read, Check True]\<rparr>)"
    by (intro session_dropped_chunk) (simp_all add: set_from_def)
next
  assume "k \<le> checks st"
  then show "supervisor (Suc fuel) h (set_from k) net st =
      Some (None, st\<lparr>checks := checks st + 1, trace := trace st @ [Check True]\<rparr>)"
    by (intro supervisor_stopped) (simp add: set_from_def)
next
  assume fuel: "k - checks st < fuel"
  have mono: "\<And>m. k \<le> m \<Longrightarrow> set_from k m" by (simp add: set_from_def)
  have thr: "\<And>m. set_from k m = (k \<le> m)" by (simp add: set_from_def)
  from supervisor_returns[where is_set="set_from k", OF mono fuel, of h net] obtain r st' where
    su: "supervisor fuel h (set_from k) net st = Some (r, st')"
    and b: "checks st' \<le> (if k \<le> checks st then checks st + 1 else k + 2)"
    by blast
  from supervisor_quiet[where is_set="set_from k", OF thr su] obtain ev where
    "trace st' = trace st @ ev"
    "after_stop ev \<in> {[], [Check True], [Check True, Check True]}"
    by blast
  moreover from b have "checks st' \<le> max k (checks st) + 2" by (simp split: if_splits)
  ultimately show "\<exists>r st' ev. supervisor fuel h (set_from k) net st = Some (r, st')
            \<and> checks st' \<le> max k (checks st) + 2
            \<and> trace st' = trace st @ ev
            \<and> after_stop ev \<in> {[], [Check True], [Check True, Check True]}"
    using su by blast
qed

theorem stop_is_prompt_witness:
  "(3::nat) - checks (start demo_state) < 4
   \<and> (\<exists>r st' ev. supervisor 4 (try_deliver demo_lib handle_event) (set_from 3) endless
          (start demo_state) = Some (r, st')
        \<and> checks st' \<le> max 3 (checks (start demo_state)) + 2
        \<and> trace st' = trace (start demo_state) @ ev
        \<and> after_stop ev \<in> {[], [Check True], [Check True, Check True]})"
  using stop_is_prompt[where k=3 and st="start demo_state" and fuel=4
      and h="try_deliver demo_lib handle_event" and net=endless]
  by (simp add: start_def)

text \<open>The run against the stream that never ends, with the stop event set from test 3.\<close>

lemma endless_run:
  "stream_forever 4 demo_lib handle_event (set_from 3) endless demo_state =
     Some (None, \<lparr>user = demo_state, buffer = str ''xx'', checks = 5, gets = 1,
       trace = [Check False, Get, Read, Check False, Read, Check False, Read, Check True,
                Check True]\<rparr>)"
  by (simp add: stream_forever_def start_def eval_nat_numeral iteration_def attempt_def finish_def
      check_def emit_def set_from_def endless_def error_status_def feed_def decode_def
      code_point_def endswith_def str_def Let_def)

section \<open>The frame decoder\<close>

subsection \<open>Decoding ASCII\<close>

lemma utf8_ascii: "\<forall>b\<in>set bs. b < 0x80 \<Longrightarrow> utf8 bs = Some bs"
  by (induction bs) (simp_all add: code_point_def)

lemma decode_ascii: "ascii c \<Longrightarrow> decode c = Some (dec c)"
  by (simp add: decode_def dec_def ascii_def utf8_ascii)

lemma dec_append [simp]: "dec (a @ b) = dec a @ dec b"
  by (simp add: dec_def)

lemma dec_concat: "dec (concat cs) = concat (map dec cs)"
  by (induction cs) (simp_all add: dec_def)

lemma dec_Nil [simp]: "dec c = [] \<longleftrightarrow> c = []"
  by (simp add: dec_def)

subsection \<open>Lines\<close>

lemma nn: "str ''\<newline>\<newline>'' = [10, 10]"
  by (simp add: str_def)

lemma endswith_nn: "endswith s [10, 10] \<longleftrightarrow> (\<exists>p. s = p @ [10, 10])"
proof
  assume "endswith s [10, 10]"
  then have d: "drop (length s - 2) s = [10, 10]" by (simp add: endswith_def numeral_2_eq_2)
  show "\<exists>p. s = p @ [10, 10]"
    by (rule exI[of _ "take (length s - 2) s"]) (subst d[symmetric], simp)
next
  assume "\<exists>p. s = p @ [10, 10]"
  then show "endswith s [10, 10]" by (auto simp: endswith_def)
qed

lemma splitlines_from_append:
  "splitlines_from cur (xs @ 10 # ys) = splitlines_from cur (xs @ [10]) @ splitlines_from [] ys"
proof (induction cur xs rule: splitlines_from.induct)
  case (1 cur)
  then show ?case by (simp add: is_linebreak_def)
next
  case (2 cur c cs)
  then show ?case
    by (cases cs) (auto simp: is_linebreak_def)
qed

lemma lines_append: "lines ((xs @ [10]) @ ys) = lines (xs @ [10]) @ lines ys"
  using splitlines_from_append[of "[]" xs ys] by (simp add: lines_def splitlines_def)

lemma lines_newline: "lines [10] = []"
  by (simp add: lines_def splitlines_def is_linebreak_def strip_def)

lemma lines_Nil: "lines [] = []"
  by (simp add: lines_def splitlines_def)

subsection \<open>The loop over the lines\<close>

lemma for_lines_append:
  "for_lines h (xs @ ys) s n =
     (case for_lines h xs s n of
        (None, s', n') \<Rightarrow> for_lines h ys s' n'
      | (Some e, s', n') \<Rightarrow> (Some e, s', n'))"
  by (induction xs arbitrary: s n) (auto split: prod.splits outcome.splits)

lemma for_lines_payloads:
  "for_lines h ls s n =
     deliver_all h (map (\<lambda>line. strip (drop (length (str ''data:'')) line))
       (filter (\<lambda>line. startswith line (str ''data:'')) ls)) s n"
  by (induction ls arbitrary: s n) (auto split: prod.splits outcome.splits)

lemma for_lines_lines: "for_lines h (lines frame) s n = deliver_all h (payloads frame) s n"
  by (simp add: for_lines_payloads payloads_def)

subsection \<open>Where the buffer is flushed\<close>

lemma flushed_whole: "flushed b cs = (P, R) \<Longrightarrow> P @ R = b @ concat cs"
proof (induction b cs arbitrary: P R rule: flushed.induct)
  case (1 b)
  then show ?case by simp
next
  case (2 b c cs)
  show ?case
  proof (cases "c = []")
    case True
    with 2 show ?thesis by simp
  next
    case False
    show ?thesis
    proof (cases "endswith (b @ c) (str ''\<newline>\<newline>'')")
      case True
      obtain P' R' where f: "flushed [] cs = (P', R')" by (cases "flushed [] cs")
      with 2(2)[OF False True f] 2(4) False True show ?thesis by auto
    next
      case nend: False
      with 2(3)[OF False nend] 2(4) False show ?thesis by simp
    qed
  qed
qed

lemma flushed_rest:
  "flushed b cs = (P, R) \<Longrightarrow> R = [] \<or> \<not> endswith R (str ''\<newline>\<newline>'') \<or> R = b"
proof (induction b cs arbitrary: P R rule: flushed.induct)
  case (1 b)
  then show ?case by simp
next
  case (2 b c cs)
  show ?case
  proof (cases "c = []")
    case True
    with 2 show ?thesis by simp
  next
    case False
    show ?thesis
    proof (cases "endswith (b @ c) (str ''\<newline>\<newline>'')")
      case True
      obtain P' R' where f: "flushed [] cs = (P', R')" by (cases "flushed [] cs")
      from 2(2)[OF False True f] 2(4) False True f show ?thesis by auto
    next
      case nend: False
      from 2(3)[OF False nend] 2(4) False nend
      have "R = [] \<or> \<not> endswith R (str ''\<newline>\<newline>'') \<or> R = b @ c" by simp
      with nend show ?thesis by auto
    qed
  qed
qed

lemma lines_flushed:
  assumes "flushed [] cs = (P, R)"
    and "concat cs = [] \<or> endswith (concat cs) (str ''\<newline>\<newline>'')"
  shows "lines P = lines (concat cs)"
proof -
  from flushed_whole[OF assms(1)] have whole: "P @ R = concat cs" by simp
  from flushed_rest[OF assms(1)] have rest: "R = [] \<or> \<not> endswith R (str ''\<newline>\<newline>'')" by auto
  show ?thesis
  proof (cases "R = []")
    case True
    with whole show ?thesis by simp
  next
    case False
    with rest have nR: "\<not> endswith R [10, 10]" by (simp add: nn)
    have "concat cs \<noteq> []"
    proof
      assume "concat cs = []"
      with whole have "P @ R = []" by simp
      with False show False by simp
    qed
    with assms(2) have "endswith (concat cs) [10, 10]" by (simp only: nn) blast
    with whole obtain q where q: "P @ R = q @ [10, 10]"
      by (auto simp: endswith_nn)
    have "R = [10]"
    proof (cases R rule: rev_cases)
      case Nil
      with False show ?thesis by simp
    next
      case (snoc R' x)
      with q have "(P @ R') @ [x] = (q @ [10]) @ [10]" by simp
      then have x: "x = 10" by (simp only: append1_eq_conv)
      show ?thesis
      proof (cases R' rule: rev_cases)
        case Nil
        with snoc x show ?thesis by simp
      next
        case (snoc R'' y)
        with \<open>R = R' @ [x]\<close> x have R: "R = R'' @ [y, 10]" by simp
        with q have "((P @ R'') @ [y]) @ [10] = (q @ [10]) @ [10]" by simp
        then have "(P @ R'') @ [y] = q @ [10]" by (simp only: append1_eq_conv)
        then have "y = 10" by (simp only: append1_eq_conv)
        with R nR show ?thesis by (auto simp: endswith_nn)
      qed
    qed
    with q have "P @ [10] = (q @ [10]) @ [10]" by simp
    then have P: "P = q @ [10]" by (simp only: append1_eq_conv)
    with whole \<open>R = [10]\<close> have "lines (concat cs) = lines ((q @ [10]) @ [10])" by simp
    also have "\<dots> = lines (q @ [10]) @ lines [10]" by (rule lines_append)
    finally show ?thesis using P by (simp add: lines_newline)
  qed
qed

subsection \<open>The read loop on ASCII chunks\<close>

lemma feed_all_flushed:
  assumes "\<forall>c\<in>set cs. ascii c"
  shows "unbuffered (feed_all h cs b s n) =
     (case flushed b (map dec cs) of (P, R) \<Rightarrow> for_lines h (lines P) s n)"
  using assms
proof (induction cs arbitrary: b s n)
  case Nil
  then show ?case by (simp add: unbuffered_def lines_Nil)
next
  case (Cons c cs)
  then have IH: "\<And>b s n. unbuffered (feed_all h cs b s n) =
     (case flushed b (map dec cs) of (P, R) \<Rightarrow> for_lines h (lines P) s n)"
    and asc: "ascii c" by simp_all
  show ?case
  proof (cases "c = []")
    case True
    then show ?thesis by (simp add: feed_def IH)
  next
    case False
    then have dc: "dec c \<noteq> []" by simp
    from asc have d: "decode c = Some (dec c)" by (rule decode_ascii)
    show ?thesis
    proof (cases "endswith (b @ dec c) (str ''\<newline>\<newline>'')")
      case nend: False
      with False d dc show ?thesis by (simp add: feed_def IH)
    next
      case True
      then obtain q where q: "b @ dec c = (q @ [10]) @ [10]" by (auto simp: nn endswith_nn)
      obtain P' R' where f: "flushed [] (map dec cs) = (P', R')"
        by (cases "flushed [] (map dec cs)")
      have split: "lines ((b @ dec c) @ P') = lines (b @ dec c) @ lines P'"
        unfolding q by (rule lines_append)
      obtain e s' n' where fl: "for_lines h (lines (b @ dec c)) s n = (e, s', n')"
        by (cases "for_lines h (lines (b @ dec c)) s n")
      have rhs: "(case flushed b (map dec (c # cs)) of (P, R) \<Rightarrow> for_lines h (lines P) s n)
          = (case e of None \<Rightarrow> for_lines h (lines P') s' n' | Some x \<Rightarrow> (Some x, s', n'))"
        using dc True f split fl by (simp add: for_lines_append split: option.splits)
      show ?thesis
      proof (cases e)
        case None
        with False d True fl have "feed_all h (c # cs) b s n = feed_all h cs [] s' n'"
          by (simp add: feed_def)
        with IH[of "[]" s' n'] f rhs None show ?thesis by simp
      next
        case (Some x)
        with False d True fl have "feed_all h (c # cs) b s n = (Some x, b @ dec c, s', n')"
          by (simp add: feed_def)
        with rhs Some show ?thesis by (simp add: unbuffered_def)
      qed
    qed
  qed
qed

lemma feed_all_whole:
  assumes "\<forall>c\<in>set cs. ascii c"
    and "concat cs = [] \<or> endswith (dec (concat cs)) (str ''\<newline>\<newline>'')"
  shows "unbuffered (feed_all h cs [] s n) = deliver_all h (payloads (dec (concat cs))) s n"
proof -
  obtain P R where f: "flushed [] (map dec cs) = (P, R)" by (cases "flushed [] (map dec cs)")
  from assms(2) have "concat (map dec cs) = []
      \<or> endswith (concat (map dec cs)) (str ''\<newline>\<newline>'')"
    by (auto simp: dec_concat[symmetric])
  from lines_flushed[OF f this] have "lines P = lines (dec (concat cs))"
    by (simp add: dec_concat)
  with feed_all_flushed[OF assms(1), of h "[]" s n] f show ?thesis
    by (simp add: for_lines_lines[symmetric])
qed

lemma stream_loop_feed_all:
  assumes "length cs < fuel"
    and "\<forall>j<length cs. body (i + j) = Chunk (cs ! j)"
    and "body (i + length cs) = EndOfStream"
  shows "stream_loop fuel h None None body clock i t b s n
     = Some (unbuffered (feed_all h cs b s n))"
  using assms
proof (induction cs arbitrary: fuel i b s n)
  case Nil
  then obtain f where "fuel = Suc f" by (cases fuel) auto
  with Nil show ?case by (simp add: unbuffered_def)
next
  case (Cons c cs)
  then obtain f where fuel: "fuel = Suc f" and f: "length cs < f" by (cases fuel) auto
  from Cons.prems(2) have hd: "body i = Chunk c" by (auto dest: spec[of _ 0])
  have tl: "\<forall>j<length cs. body (i + 1 + j) = Chunk (cs ! j)"
  proof (intro allI impI)
    fix j assume "j < length cs"
    with Cons.prems(2) have "body (i + Suc j) = Chunk ((c # cs) ! Suc j)" by auto
    then show "body (i + 1 + j) = Chunk (cs ! j)" by simp
  qed
  from Cons.prems(3) have en: "body (i + 1 + length cs) = EndOfStream" by simp
  note IH = Cons.IH[OF f tl en]
  show ?case
    using hd fuel IH
    by (cases "feed h c b s n")
       (simp_all add: reached_def truthy_def unbuffered_def)
qed

lemma body_of_stream:
  assumes "length cs < fuel"
  shows "stream_loop fuel h None None (body_of cs EndOfStream) clock 0 t b s n
     = Some (unbuffered (feed_all h cs b s n))"
  using assms by (intro stream_loop_feed_all) (simp_all add: body_of_def)

subsection \<open>The lines of a stream of events\<close>

lemma splitlines_line:
  "\<forall>c\<in>set x. \<not> is_linebreak c \<Longrightarrow>
   splitlines_from cur (x @ 10 # rest) = (cur @ x) # splitlines_from [] rest"
proof (induction x arbitrary: cur)
  case Nil
  show ?case by (simp add: is_linebreak_def)
next
  case (Cons a x)
  then have "\<not> is_linebreak a" by simp
  then have "a \<noteq> 13" by (auto simp: is_linebreak_def)
  with Cons \<open>\<not> is_linebreak a\<close> show ?case by simp
qed

lemma dec_event:
  "dec (event_bytes ls) = concat (map (\<lambda>l. dec l @ [10]) ls) @ [10]"
  by (simp add: event_bytes_def dec_def map_concat comp_def)

lemma field_line_dec: "field_line l \<Longrightarrow> \<forall>c\<in>set (dec l). \<not> is_linebreak c"
  by (auto simp: field_line_def dec_def)

lemma splitlines_event:
  assumes "\<forall>l\<in>set ls. field_line l"
  shows "splitlines_from [] (dec (event_bytes ls) @ rest)
     = map dec ls @ [] # splitlines_from [] rest"
  using assms
proof (induction ls)
  case Nil
  show ?case by (simp add: dec_event is_linebreak_def)
next
  case (Cons l ls)
  from Cons.prems have "field_line l" by simp
  then have l: "\<forall>c\<in>set (dec l). \<not> is_linebreak c" by (rule field_line_dec)
  have "splitlines_from [] (dec (event_bytes (l # ls)) @ rest)
      = splitlines_from [] (dec l @ 10 # (dec (event_bytes ls) @ rest))"
    by (simp add: dec_event)
  also have "\<dots> = dec l # splitlines_from [] (dec (event_bytes ls) @ rest)"
    using splitlines_line[OF l, of "[]"] by simp
  finally show ?case using Cons.IH Cons.prems by simp
qed

lemma splitlines_stream:
  assumes "\<forall>ev\<in>set evs. \<forall>l\<in>set ev. field_line l"
  shows "splitlines (dec (stream_bytes evs)) = concat (map (\<lambda>ev. map dec ev @ [[]]) evs)"
  using assms
proof (induction evs)
  case Nil
  show ?case by (simp add: splitlines_def stream_bytes_def dec_def)
next
  case (Cons ev evs)
  then have ev: "\<forall>l\<in>set ev. field_line l"
    and IH: "splitlines (dec (stream_bytes evs)) = concat (map (\<lambda>ev. map dec ev @ [[]]) evs)"
    by simp_all
  have "dec (stream_bytes (ev # evs)) = dec (event_bytes ev) @ dec (stream_bytes evs)"
    by (simp add: stream_bytes_def)
  with splitlines_event[OF ev, of "dec (stream_bytes evs)"] IH
  show ?case by (simp add: splitlines_def)
qed

lemma data_line_not_blank:
  assumes "startswith line (str ''data:'')"
  shows "strip line \<noteq> []"
proof -
  from assms obtain r where line: "line = 100 # r"
    by (cases line) (auto simp: startswith_def str_def)
  have ns: "\<not> is_space 100" by (simp add: is_space_def)
  then have "dropWhile is_space line = line" using line by simp
  moreover have "dropWhile is_space (rev line) \<noteq> []"
    using ns line by (auto simp: dropWhile_eq_Nil_conv)
  ultimately show ?thesis by (simp add: strip_def)
qed

lemma empty_not_data: "\<not> startswith [] (str ''data:'')"
  by (simp add: startswith_def str_def)

lemma payloads_stream:
  assumes "\<forall>ev\<in>set evs. \<forall>l\<in>set ev. field_line l"
  shows "payloads (dec (stream_bytes evs)) = concat (map event_payloads evs)"
proof -
  have f: "filter (\<lambda>line. startswith line (str ''data:'')) (filter (\<lambda>line. strip line \<noteq> []) xs)
      = filter (\<lambda>line. startswith line (str ''data:'')) xs" for xs
    by (induction xs) (auto dest: data_line_not_blank)
  have g: "filter (\<lambda>line. startswith line (str ''data:''))
        (concat (map (\<lambda>ev. map dec ev @ [[]]) evs))
      = concat (map (\<lambda>ev. filter (\<lambda>line. startswith line (str ''data:'')) (map dec ev)) evs)"
    by (induction evs) (simp_all add: empty_not_data)
  show ?thesis
    unfolding payloads_def lines_def splitlines_stream[OF assms] f g
    by (induction evs) (simp_all add: event_payloads_def filter_map comp_def)
qed

lemma stream_chunks_ascii:
  assumes "\<forall>ev\<in>set evs. \<forall>l\<in>set ev. field_line l" and "concat chunks = stream_bytes evs"
  shows "\<forall>c\<in>set chunks. ascii c"
proof -
  have a: "ascii (stream_bytes evs)"
    using assms(1)
    by (auto simp: ascii_def stream_bytes_def event_bytes_def field_line_def)
  show ?thesis
    unfolding ascii_def
  proof (intro ballI)
    fix c x
    assume "c \<in> set chunks" "x \<in> set c"
    then have "x \<in> set (concat chunks)" by auto
    with assms(2) a show "of_char x < (0x80::nat)" by (simp add: ascii_def)
  qed
qed

lemma stream_ends:
  assumes "\<forall>ev\<in>set evs. ev \<noteq> []"
  shows "stream_bytes evs = [] \<or> endswith (dec (stream_bytes evs)) (str ''\<newline>\<newline>'')"
proof (cases evs rule: rev_cases)
  case Nil
  then show ?thesis by (simp add: stream_bytes_def)
next
  case (snoc evs' ev)
  with assms have "ev \<noteq> []" by simp
  then obtain ls l where ev: "ev = ls @ [l]" by (cases ev rule: rev_cases) auto
  have "dec (stream_bytes evs)
      = (dec (stream_bytes evs') @ concat (map (\<lambda>l. dec l @ [10]) ls) @ dec l) @ [10, 10]"
    using snoc ev by (simp add: stream_bytes_def dec_event)
  then show ?thesis by (simp only: nn endswith_nn) blast
qed

lemma deliver_all_collect:
  "deliver_all collect ps seen n = (None, seen @ ps, n + length ps)"
  by (induction ps arbitrary: seen n) (simp_all add: collect_def)

lemma stream_with_events:
  assumes "\<forall>ev\<in>set evs. ev \<noteq> [] \<and> (\<forall>l\<in>set ev. field_line l)"
    and "concat chunks = stream_bytes evs"
    and "\<not> error_status status" and "length chunks < fuel"
  shows "stream_with fuel h None None (Response status (body_of chunks EndOfStream)) clock s
     = Some (deliver_all h (concat (map event_payloads evs)) s 0)"
proof -
  from assms(1) have fl: "\<forall>ev\<in>set evs. \<forall>l\<in>set ev. field_line l"
    and ne: "\<forall>ev\<in>set evs. ev \<noteq> []" by auto
  from stream_chunks_ascii[OF fl assms(2)] have asc: "\<forall>c\<in>set chunks. ascii c" .
  from stream_ends[OF ne] assms(2)
  have en: "concat chunks = [] \<or> endswith (dec (concat chunks)) (str ''\<newline>\<newline>'')" by simp
  from feed_all_whole[OF asc en, of h s 0] assms(2) payloads_stream[OF fl]
  have "unbuffered (feed_all h chunks [] s 0)
      = deliver_all h (concat (map event_payloads evs)) s 0" by simp
  with body_of_stream[OF assms(4), of h clock 1 "[]" s 0] assms(3)
  show ?thesis by (simp add: stream_with_def)
qed

lemma single_frame:
  assumes "\<forall>c\<in>set cs. ascii c" and "one_frame b cs" and "\<not> reached stop_after n"
    and "length cs < fuel"
    and "\<forall>j<length cs. body (i + j) = Chunk (cs ! j)"
    and "body (i + length cs) = EndOfStream"
  shows "stream_loop fuel h stop_after None body clock i t b s n
     = Some (for_lines h (lines (b @ dec (concat cs))) s n)"
  using assms
proof (induction b cs arbitrary: fuel i rule: one_frame.induct)
  case (1 b)
  then show ?case by simp
next
  case (2 b c)
  then obtain f where fuel: "fuel = Suc (Suc f)"
    by (cases fuel; cases "fuel - 1") auto
  from 2 have c: "c \<noteq> []" "decode c = Some (dec c)"
    and e: "endswith (b @ dec c) (str ''\<newline>\<newline>'')"
    and hd: "body i = Chunk c" and en: "body (i + 1) = EndOfStream"
    by (simp_all add: decode_ascii)
  obtain r s' n' where fl: "for_lines h (lines (b @ dec c)) s n = (r, s', n')"
    by (cases "for_lines h (lines (b @ dec c)) s n")
  show ?case
    using fuel c e hd en fl
    by (cases r) (simp_all add: feed_def truthy_def)
next
  case (3 b c c' cs)
  then obtain f where fuel: "fuel = Suc f" and f: "length (c' # cs) < f" by (cases fuel) auto
  from "3.prems" have asc: "\<forall>x\<in>set (c' # cs). ascii x" and d: "decode c = Some (dec c)"
    and ne: "\<not> endswith (b @ dec c) (str ''\<newline>\<newline>'')" and q: "one_frame (b @ dec c) (c' # cs)"
    by (simp_all add: decode_ascii)
  from "3.prems"(5) have hd: "body i = Chunk c" by (auto dest: spec[of _ 0])
  have tl: "\<forall>j<length (c' # cs). body (i + 1 + j) = Chunk ((c' # cs) ! j)"
  proof (intro allI impI)
    fix j assume "j < length (c' # cs)"
    with "3.prems"(5) have "body (i + Suc j) = Chunk ((c # c' # cs) ! Suc j)" by auto
    then show "body (i + 1 + j) = Chunk ((c' # cs) ! j)" by simp
  qed
  from "3.prems"(6) have en: "body (i + 1 + length (c' # cs)) = EndOfStream" by simp
  note IH = "3.IH"[OF asc q "3.prems"(3) f tl en]
  show ?case
  proof (cases "c = []")
    case True
    with hd fuel IH show ?thesis by (simp add: feed_def dec_def)
  next
    case False
    with hd fuel IH d ne "3.prems"(3) show ?thesis by (simp add: feed_def truthy_def)
  qed
qed

lemma single_frame_stream:
  assumes "\<forall>c\<in>set cs. ascii c" and "one_frame [] cs" and "\<not> reached stop_after 0"
    and "length cs < fuel" and "\<not> error_status status"
  shows "stream fuel lib on_event stop_after None (Response status (body_of cs EndOfStream)) clock s
     = Some (deliver_all (try_deliver lib on_event) (payloads (dec (concat cs))) s 0)"
  using single_frame[OF assms(1-4), of "body_of cs EndOfStream" 0 "try_deliver lib on_event" clock 1 s]
    assms(5)
  by (simp add: stream_def stream_with_def body_of_def for_lines_lines)

lemma bytes_concat: "concat (map (\<lambda>c. [c]) bs) = bs"
  by (induction bs) simp_all

lemma bytes_ascii: "ascii bs \<Longrightarrow> \<forall>c\<in>set (map (\<lambda>c. [c]) bs). ascii c"
  by (auto simp: ascii_def)

lemma for_lines_uncounted:
  "fst (for_lines h ls s n) = fst (for_lines h ls s m)
   \<and> fst (snd (for_lines h ls s n)) = fst (snd (for_lines h ls s m))"
proof (induction ls arbitrary: s n m)
  case Nil
  show ?case by simp
next
  case (Cons l ls)
  show ?case
  proof (cases "startswith l (str ''data:'')")
    case False
    with Cons[of s n m] show ?thesis by simp
  next
    case True
    obtain v s' where v: "h (strip (drop (length (str ''data:'')) l)) s = (v, s')"
      by (cases "h (strip (drop (length (str ''data:'')) l)) s")
    show ?thesis
    proof (cases v)
      case Delivered
      with True v Cons[of s' "n + 1" "m + 1"] show ?thesis by simp
    next
      case Swallowed
      with True v Cons[of s' n m] show ?thesis by simp
    next
      case (Escaped x)
      with True v show ?thesis by simp
    qed
  qed
qed

lemma feed_uncounted: "fed_state (feed h c b s n) = fed_state (feed h c b s m)"
proof -
  have "fed_state (case for_lines h ls s n of
            (None, s', k) \<Rightarrow> Fed [] s' k | (Some e, s', k) \<Rightarrow> Aborted e b' s' k)
      = fed_state (case for_lines h ls s m of
            (None, s', k) \<Rightarrow> Fed [] s' k | (Some e, s', k) \<Rightarrow> Aborted e b' s' k)" for ls b'
    using for_lines_uncounted[of h ls s n m]
    by (cases "for_lines h ls s n"; cases "for_lines h ls s m")
       (auto simp: fed_state_def split: option.splits)
  then show ?thesis
    by (auto simp: feed_def Let_def fed_state_def split: option.splits)
qed

lemma session_feed_all:
  assumes "\<forall>m. \<not> is_set m" and "length cs < fuel"
    and "\<forall>j<length cs. body (i + j) = Chunk (cs ! j)"
    and "body (i + length cs) = EndOfStream"
    and "feed_all h cs (buffer st) (user st) n = (e, b', s', n')"
  shows "\<exists>st'. session fuel h is_set body i st = Some (e, st') \<and> buffer st' = b' \<and> user st' = s'"
  using assms(2-)
proof (induction cs arbitrary: fuel i st n)
  case Nil
  then obtain f where "fuel = Suc f" by (cases fuel) auto
  with Nil show ?case by simp
next
  case (Cons c cs)
  then obtain f where fuel: "fuel = Suc f" and f: "length cs < f" by (cases fuel) auto
  from Cons.prems(2) have hd: "body i = Chunk c" by (auto dest: spec[of _ 0])
  have tl: "\<forall>j<length cs. body (i + 1 + j) = Chunk (cs ! j)"
  proof (intro allI impI)
    fix j assume "j < length cs"
    with Cons.prems(2) have "body (i + Suc j) = Chunk ((c # cs) ! Suc j)" by auto
    then show "body (i + 1 + j) = Chunk (cs ! j)" by simp
  qed
  from Cons.prems(3) have en: "body (i + 1 + length cs) = EndOfStream" by simp
  let ?st1 = "check is_set (emit Read st)"
  have ns: "\<not> is_set (checks st)" using assms(1) by simp
  have same: "fed_state (feed h c (buffer st) (user st) 0) = fed_state (feed h c (buffer st) (user st) n)"
    by (rule feed_uncounted)
  show ?case
  proof (cases "feed h c (buffer st) (user st) n")
    case Skipped
    with same have z: "feed h c (buffer st) (user st) 0 = Skipped"
      by (cases "feed h c (buffer st) (user st) 0") (simp_all add: fed_state_def)
    from Cons.prems(4) Skipped have "feed_all h cs (buffer ?st1) (user ?st1) n = (e, b', s', n')"
      by simp
    from Cons.IH[OF f tl en this] hd fuel ns z show ?thesis by (simp add: Let_def)
  next
    case (Fed b1 s1 n1)
    with same obtain d where z: "feed h c (buffer st) (user st) 0 = Fed b1 s1 d"
      by (cases "feed h c (buffer st) (user st) 0") (simp_all add: fed_state_def)
    let ?st2 = "?st1\<lparr>user := s1, buffer := b1\<rparr>"
    from Cons.prems(4) Fed have "feed_all h cs (buffer ?st2) (user ?st2) n1 = (e, b', s', n')"
      by simp
    from Cons.IH[OF f tl en this] hd fuel ns z show ?thesis by (simp add: Let_def)
  next
    case (Aborted x b1 s1 n1)
    with same obtain d where z: "feed h c (buffer st) (user st) 0 = Aborted x b1 s1 d"
      by (cases "feed h c (buffer st) (user st) 0") (simp_all add: fed_state_def)
    from Cons.prems(4) Aborted have "e = Some x" "b' = b1" "s' = s1" by simp_all
    with hd fuel ns z show ?thesis by (simp add: Let_def)
  qed
qed

lemma session_events:
  assumes "\<forall>ev\<in>set evs. ev \<noteq> [] \<and> (\<forall>l\<in>set ev. field_line l)"
    and "concat chunks = stream_bytes evs"
    and "buffer st = []" and "length chunks < fuel"
    and "deliver_all h (concat (map event_payloads evs)) (user st) 0 = (e, s', n')"
  shows "\<exists>st'. session fuel h (\<lambda>n. False) (body_of chunks EndOfStream) 0 st = Some (e, st')
     \<and> user st' = s'"
proof -
  from assms(1) have fl: "\<forall>ev\<in>set evs. \<forall>l\<in>set ev. field_line l"
    and ne: "\<forall>ev\<in>set evs. ev \<noteq> []" by auto
  from stream_chunks_ascii[OF fl assms(2)] have asc: "\<forall>c\<in>set chunks. ascii c" .
  from stream_ends[OF ne] assms(2)
  have en: "concat chunks = [] \<or> endswith (dec (concat chunks)) (str ''\<newline>\<newline>'')" by simp
  from feed_all_whole[OF asc en, of h "user st" 0] assms(2,5) payloads_stream[OF fl]
  have u: "unbuffered (feed_all h chunks [] (user st) 0) = (e, s', n')" by simp
  obtain b1 where fa: "feed_all h chunks (buffer st) (user st) 0 = (e, b1, s', n')"
    using u assms(3) by (cases "feed_all h chunks [] (user st) 0") (simp add: unbuffered_def)
  have "\<exists>st'. session fuel h (\<lambda>n. False) (body_of chunks EndOfStream) (0::nat) st = Some (e, st')
      \<and> buffer st' = b1 \<and> user st' = s'"
    by (rule session_feed_all[OF _ assms(4) _ _ fa]) (simp_all add: body_of_def)
  then show ?thesis by blast
qed

lemma feed_accented: "feed collect accented [] [] 0 = Fed [] [[0xE9]] 1"
proof -
  have "decode accented = Some [100, 97, 116, 97, 58, 32, 0xE9, 10, 10]"
    by (simp add: accented_def decode_def code_point_def seq2_def continuation_byte_def)
  moreover have "accented \<noteq> []" by (simp add: accented_def)
  ultimately show ?thesis
    by (simp add: feed_def endswith_def str_def lines_def splitlines_def is_linebreak_def
        strip_def is_space_def startswith_def collect_def)
qed

lemma feed_accented_head: "feed collect (take 7 accented) [] [] 0 = Skipped"
  by (simp add: feed_def accented_def decode_def code_point_def seq2_def)

lemma feed_accented_tail: "feed collect (drop 7 accented) [] [] 0 = Skipped"
  by (simp add: feed_def accented_def decode_def code_point_def)

lemma demo_lines:
  \<open>field_line ''data: {"temperature": 25.5, "timestamp": "t1"}''\<close>
  \<open>field_line ''data: {"temperature": 99.9, "timestamp": "t2"}''\<close>
  by (simp_all add: field_line_def is_linebreak_def)

lemma demo_event_payloads:
  \<open>concat (map event_payloads [[''data: {"temperature": 25.5, "timestamp": "t1"}''],
                               [''data: {"temperature": 99.9, "timestamp": "t2"}'']])
     = [str ''{"temperature": 25.5, "timestamp": "t1"}'',
        str ''{"temperature": 99.9, "timestamp": "t2"}'']\<close>
  by (simp add: event_payloads_def dec_def str_def startswith_def strip_def is_space_def)

lemma demo_stream:
  \<open>stream_bytes [[''data: {"temperature": 25.5, "timestamp": "t1"}''],
                 [''data: {"temperature": 99.9, "timestamp": "t2"}'']] = example_stream\<close>
  by (simp add: stream_bytes_def event_bytes_def example_stream_def)

lemma demo_events:
  \<open>\<forall>ev\<in>set [[''data: {"temperature": 25.5, "timestamp": "t1"}''],
               [''data: {"temperature": 99.9, "timestamp": "t2"}'']].
      ev \<noteq> [] \<and> (\<forall>l\<in>set ev. field_line l)\<close>
  by (simp add: demo_lines)

lemma demo_deliveries:
  \<open>deliver_all (try_deliver demo_lib handle_event)
      [str ''{"temperature": 25.5, "timestamp": "t1"}'',
       str ''{"temperature": 99.9, "timestamp": "t2"}''] demo_state 0
   = (None,
       (\<lparr>safe_min = Finite 20, safe_max = Finite 80,
          readings = [\<lparr>temperature = Finite 25.5, timestamp = JStr (str ''t1'')\<rparr>,
                      \<lparr>temperature = Finite 99.9, timestamp = JStr (str ''t2'')\<rparr>]\<rparr>,
        [(Normal, \<lparr>temperature = Finite 25.5, timestamp = JStr (str ''t1'')\<rparr>),
         (Above, \<lparr>temperature = Finite 99.9, timestamp = JStr (str ''t2'')\<rparr>)]),
       2)\<close>
  by (simp add: try_deliver_def demo_payload_a demo_payload_b handle_event_def demo_state_def
      add_reading_def alert_of_def float_gt_def float_eq_def)

lemma two_line_frame_ascii: "ascii two_line_frame"
  by (simp add: ascii_def two_line_frame_def)

lemma two_line_frame_quiet: "one_frame [] (map (\<lambda>c. [c]) two_line_frame)"
  by (simp add: two_line_frame_def endswith_def str_def dec_def)

lemma two_line_frame_payloads:
  \<open>payloads (dec two_line_frame)
    = [str ''{"temperature": 25.5, "timestamp": "t1"}'',
       str ''{"temperature": 99.9, "timestamp": "t2"}'']\<close>
  by (simp add: two_line_frame_def payloads_def lines_def splitlines_def dec_def str_def
      is_linebreak_def strip_def is_space_def startswith_def)

lemma two_line_frame_length: "length two_line_frame = 95"
  by (simp add: two_line_frame_def)

lemma demo_object_a:
  \<open>json_loads demo_lib (str ''{"temperature": 25.5, "timestamp": "t1"}'')
     = Some (JDict [(str ''temperature'', JFloat (Finite 25.5)),
                    (str ''timestamp'', JStr (str ''t1''))])\<close>
  by (simp add: demo_lib_def demo_loads_def)

lemma demo_object_b:
  \<open>json_loads demo_lib (str ''{"temperature": 99.9, "timestamp": "t2"}'')
     = Some (JDict [(str ''temperature'', JFloat (Finite 99.9)),
                    (str ''timestamp'', JStr (str ''t2''))])\<close>
  by (simp add: demo_lib_def demo_loads_def str_def)

lemma demo_fields:
  "subscript (JDict [(str ''temperature'', JFloat x), (str ''timestamp'', JStr t)])
     (str ''temperature'') = Some (JFloat x)"
  "subscript (JDict [(str ''temperature'', JFloat x), (str ''timestamp'', JStr t)])
     (str ''timestamp'') = Some (JStr t)"
  by (simp_all add: str_def)

lemma accented_feed:
  "feed_all collect (map (\<lambda>c. [c]) accented) [] [] 0 = (None, [], [[]], 1)"
  by (simp add: accented_def feed_def decode_def code_point_def seq2_def endswith_def str_def
      lines_def splitlines_def is_linebreak_def strip_def is_space_def
      startswith_def collect_def Let_def)

lemma accented_one_byte:
  "stream_with 11 collect None None
       (Response 200 (body_of (map (\<lambda>c. [c]) accented) EndOfStream)) frozen_clock []
     = Some (None, [[]], 1)"
proof -
  have l: "length (map (\<lambda>c. [c]) accented) < 11" by (simp add: accented_def)
  from body_of_stream[OF l, of collect frozen_clock 1 "[]" "[]" 0]
  show ?thesis
    by (simp add: stream_with_def error_status_def accented_feed unbuffered_def)
qed

section \<open>The claims about the frame decoder and the bounded session\<close>

text \<open>
  C2, as stated, fails on a stream that is not ASCII. Each chunk is decoded on its own and
  a chunk that is not valid UTF-8 is skipped. The stream \<open>accented\<close> is one complete event;
  delivered whole it yields its payload, the one character U+00E9; cut between the two
  bytes of that character, neither chunk decodes, and the loop yields nothing; read one
  byte per chunk, as the source asks for, both bytes of the character are dropped and the
  payload is the empty string.
\<close>

theorem split_character_counterexample:
  "concat [take 7 accented, drop 7 accented] = accented
   \<and> concat (map (\<lambda>c. [c]) accented) = accented
   \<and> stream_with 3 collect None None (Response 200 (body_of [accented] EndOfStream))
       frozen_clock []
     = Some (None, [[0xE9]], 1)
   \<and> stream_with 3 collect None None
       (Response 200 (body_of [take 7 accented, drop 7 accented] EndOfStream)) frozen_clock []
     = Some (None, [], 0)
   \<and> stream_with 11 collect None None
       (Response 200 (body_of (map (\<lambda>c. [c]) accented) EndOfStream)) frozen_clock []
     = Some (None, [[]], 1)"
  by (simp add: accented_one_byte bytes_concat)
     (simp add: stream_with_def error_status_def body_of_def numeral_3_eq_3
        feed_accented feed_accented_head feed_accented_tail reached_def truthy_def)

text \<open>
  C2, as the code has it. Take a stream of events whose lines are \<open>field_line\<close>s (ASCII), each
  event with at least one line, and any list of chunks whose concatenation is the stream.
  The read loop of \<open>stream\<close>, without limits, hands the payloads of the \<open>data:\<close> lines of the
  events, in order, to the \<open>try\<close> statement, and does nothing else: with the handler that
  collects them the result is that list. The read loop of \<open>stream_forever\<close>, with the stop
  event unset, does the same. When every event has one \<open>data:\<close> line there are as many
  payloads as events. None of this depends on the chunks.
\<close>

theorem segmentation_independent:
  assumes "\<forall>ev\<in>set evs. ev \<noteq> [] \<and> (\<forall>l\<in>set ev. field_line l)"
    and "concat chunks = stream_bytes evs"
  shows "stream_with (Suc (length chunks)) h None None
           (Response 200 (body_of chunks EndOfStream)) clock s
         = Some (deliver_all h (concat (map event_payloads evs)) s 0)
     \<and> stream_with (Suc (length chunks)) collect None None
           (Response 200 (body_of chunks EndOfStream)) clock []
         = Some (None, concat (map event_payloads evs),
                 length (concat (map event_payloads evs)))
     \<and> (\<exists>st'. session (Suc (length chunks)) h (\<lambda>n. False) (body_of chunks EndOfStream) 0
                 (st\<lparr>buffer := []\<rparr>)
               = Some (fst (deliver_all h (concat (map event_payloads evs)) (user st) 0), st')
            \<and> user st' = fst (snd (deliver_all h (concat (map event_payloads evs)) (user st) 0)))
     \<and> ((\<forall>ev\<in>set evs. length (event_payloads ev) = 1) \<longrightarrow>
          length (concat (map event_payloads evs)) = length evs)"
proof (intro conjI impI)
  have ok: "\<not> error_status 200" by (simp add: error_status_def)
  show "stream_with (Suc (length chunks)) h None None
           (Response 200 (body_of chunks EndOfStream)) clock s
         = Some (deliver_all h (concat (map event_payloads evs)) s 0)"
    by (rule stream_with_events[OF assms ok]) simp
  show "stream_with (Suc (length chunks)) collect None None
           (Response 200 (body_of chunks EndOfStream)) clock []
         = Some (None, concat (map event_payloads evs),
                 length (concat (map event_payloads evs)))"
    using stream_with_events[OF assms ok, of "Suc (length chunks)" collect clock "[]"]
    by (simp add: deliver_all_collect)
  obtain e s' n' where d:
    "deliver_all h (concat (map event_payloads evs)) (user (st\<lparr>buffer := []\<rparr>)) 0 = (e, s', n')"
    by (cases "deliver_all h (concat (map event_payloads evs)) (user (st\<lparr>buffer := []\<rparr>)) 0")
  from session_events[OF assms _ _ d, of "Suc (length chunks)"] d
  show "\<exists>st'. session (Suc (length chunks)) h (\<lambda>n. False) (body_of chunks EndOfStream) 0
                 (st\<lparr>buffer := []\<rparr>)
               = Some (fst (deliver_all h (concat (map event_payloads evs)) (user st) 0), st')
            \<and> user st' = fst (snd (deliver_all h (concat (map event_payloads evs)) (user st) 0))"
    by simp
next
  assume "\<forall>ev\<in>set evs. length (event_payloads ev) = 1"
  then show "length (concat (map event_payloads evs)) = length evs"
    by (induction evs) simp_all
qed

theorem segmentation_independent_witness:
  \<open>field_line ''data: {"temperature": 25.5, "timestamp": "t1"}''
   \<and> field_line ''data: {"temperature": 99.9, "timestamp": "t2"}''
   \<and> concat [take 40 example_stream, drop 40 example_stream]
      = stream_bytes [[''data: {"temperature": 25.5, "timestamp": "t1"}''],
                      [''data: {"temperature": 99.9, "timestamp": "t2"}'']]
   \<and> stream_with (Suc (length [take 40 example_stream, drop 40 example_stream])) collect
        None None
        (Response 200 (body_of [take 40 example_stream, drop 40 example_stream] EndOfStream))
        frozen_clock []
      = Some (None, [str ''{"temperature": 25.5, "timestamp": "t1"}'',
                     str ''{"temperature": 99.9, "timestamp": "t2"}''], 2)\<close>
proof -
  have c: \<open>concat [take 40 example_stream, drop 40 example_stream]
      = stream_bytes [[''data: {"temperature": 25.5, "timestamp": "t1"}''],
                      [''data: {"temperature": 99.9, "timestamp": "t2"}'']]\<close>
    by (simp add: demo_stream)
  note t = segmentation_independent[OF demo_events c, where clock=frozen_clock,
      THEN conjunct2, THEN conjunct1]
  have \<open>stream_with (Suc (length [take 40 example_stream, drop 40 example_stream])) collect
        None None
        (Response 200 (body_of [take 40 example_stream, drop 40 example_stream] EndOfStream))
        frozen_clock []
      = Some (None, [str ''{"temperature": 25.5, "timestamp": "t1"}'',
                     str ''{"temperature": 99.9, "timestamp": "t2"}''], 2)\<close>
    using t unfolding demo_event_payloads by simp
  with c demo_lines show ?thesis by (intro conjI)
qed

text \<open>
  C8. Let \<open>json.loads\<close> map the two payloads of the example to objects whose \<open>temperature\<close> is
  a float and whose \<open>timestamp\<close> is \<open>"t1"\<close> and \<open>"t2"\<close>. However the example stream is cut into
  chunks, \<open>stream\<close> hands exactly these two payloads to the \<open>try\<close> statement, in this order;
  they map to the readings with those temperatures and timestamps; and with a callback
  that returns on both, the result is the state after the call on the first reading
  followed by the call on the second, with \<open>event_count = 2\<close>.
\<close>

theorem two_readings_in_order:
  assumes \<open>json_loads lib (str ''{"temperature": 25.5, "timestamp": "t1"}'') = Some obja\<close>
    and "subscript obja (str ''temperature'') = Some (JFloat xa)"
    and "subscript obja (str ''timestamp'') = Some (JStr (str ''t1''))"
    and \<open>json_loads lib (str ''{"temperature": 99.9, "timestamp": "t2"}'') = Some objb\<close>
    and "subscript objb (str ''temperature'') = Some (JFloat xb)"
    and "subscript objb (str ''timestamp'') = Some (JStr (str ''t2''))"
    and "concat chunks = example_stream"
  shows \<open>stream (Suc (length chunks)) lib on_event None None
           (Response 200 (body_of chunks EndOfStream)) clock s
         = Some (deliver_all (try_deliver lib on_event)
             [str ''{"temperature": 25.5, "timestamp": "t1"}'',
              str ''{"temperature": 99.9, "timestamp": "t2"}''] s 0)
     \<and> to_reading lib (str ''{"temperature": 25.5, "timestamp": "t1"}'')
         = Some \<lparr>temperature = xa, timestamp = JStr (str ''t1'')\<rparr>
     \<and> to_reading lib (str ''{"temperature": 99.9, "timestamp": "t2"}'')
         = Some \<lparr>temperature = xb, timestamp = JStr (str ''t2'')\<rparr>
     \<and> (on_event \<lparr>temperature = xa, timestamp = JStr (str ''t1'')\<rparr> s = (None, s')
          \<and> on_event \<lparr>temperature = xb, timestamp = JStr (str ''t2'')\<rparr> s' = (None, s'')
          \<longrightarrow> stream (Suc (length chunks)) lib on_event None None
                (Response 200 (body_of chunks EndOfStream)) clock s
              = Some (None, s'', 2))\<close>
proof -
  have ra: \<open>to_reading lib (str ''{"temperature": 25.5, "timestamp": "t1"}'')
         = Some \<lparr>temperature = xa, timestamp = JStr (str ''t1'')\<rparr>\<close>
    using assms(1-3) by (simp add: to_reading_def)
  have rb: \<open>to_reading lib (str ''{"temperature": 99.9, "timestamp": "t2"}'')
         = Some \<lparr>temperature = xb, timestamp = JStr (str ''t2'')\<rparr>\<close>
    using assms(4-6) by (simp add: to_reading_def)
  have c: \<open>concat chunks = stream_bytes [[''data: {"temperature": 25.5, "timestamp": "t1"}''],
                      [''data: {"temperature": 99.9, "timestamp": "t2"}'']]\<close>
    using assms(7) by (simp add: demo_stream)
  have ok: "\<not> error_status 200" by (simp add: error_status_def)
  have run: \<open>stream (Suc (length chunks)) lib on_event None None
           (Response 200 (body_of chunks EndOfStream)) clock s
         = Some (deliver_all (try_deliver lib on_event)
             [str ''{"temperature": 25.5, "timestamp": "t1"}'',
              str ''{"temperature": 99.9, "timestamp": "t2"}''] s 0)\<close>
    using stream_with_events[OF demo_events c ok, of "Suc (length chunks)"
        "try_deliver lib on_event" clock s]
    unfolding demo_event_payloads stream_def by simp
  show ?thesis
  proof (intro conjI impI)
    show \<open>stream (Suc (length chunks)) lib on_event None None
           (Response 200 (body_of chunks EndOfStream)) clock s
         = Some (deliver_all (try_deliver lib on_event)
             [str ''{"temperature": 25.5, "timestamp": "t1"}'',
              str ''{"temperature": 99.9, "timestamp": "t2"}''] s 0)\<close>
      by (rule run)
    show \<open>to_reading lib (str ''{"temperature": 25.5, "timestamp": "t1"}'')
         = Some \<lparr>temperature = xa, timestamp = JStr (str ''t1'')\<rparr>\<close>
      by (rule ra)
    show \<open>to_reading lib (str ''{"temperature": 99.9, "timestamp": "t2"}'')
         = Some \<lparr>temperature = xb, timestamp = JStr (str ''t2'')\<rparr>\<close>
      by (rule rb)
  next
    assume \<open>on_event \<lparr>temperature = xa, timestamp = JStr (str ''t1'')\<rparr> s = (None, s')
          \<and> on_event \<lparr>temperature = xb, timestamp = JStr (str ''t2'')\<rparr> s' = (None, s'')\<close>
    then have "deliver_all (try_deliver lib on_event)
             [str ''{\"temperature\": 25.5, \"timestamp\": \"t1\"}'',
              str ''{\"temperature\": 99.9, \"timestamp\": \"t2\"}''] s 0 = (None, s'', 2)"
      by (simp add: try_deliver_def ra rb)
    with run show \<open>stream (Suc (length chunks)) lib on_event None None
                (Response 200 (body_of chunks EndOfStream)) clock s
              = Some (None, s'', 2)\<close>
      by simp
  qed
qed

theorem two_readings_in_order_witness:
  "concat (map (\<lambda>c. [c]) example_stream) = example_stream
   \<and> stream (Suc (length (map (\<lambda>c. [c]) example_stream))) demo_lib handle_event None None
       (Response 200 (body_of (map (\<lambda>c. [c]) example_stream) EndOfStream))
       frozen_clock demo_state
     = Some (None,
         (\<lparr>safe_min = Finite 20, safe_max = Finite 80,
            readings = [\<lparr>temperature = Finite 25.5, timestamp = JStr (str ''t1'')\<rparr>,
                        \<lparr>temperature = Finite 99.9, timestamp = JStr (str ''t2'')\<rparr>]\<rparr>,
          [(Normal, \<lparr>temperature = Finite 25.5, timestamp = JStr (str ''t1'')\<rparr>),
           (Above, \<lparr>temperature = Finite 99.9, timestamp = JStr (str ''t2'')\<rparr>)]),
         2)"
proof -
  note t = two_readings_in_order[OF demo_object_a demo_fields demo_object_b demo_fields
      bytes_concat, where on_event=handle_event and clock=frozen_clock and s=demo_state,
      THEN conjunct1]
  from t bytes_concat[of example_stream] show ?thesis
    by (simp only: demo_deliveries simp_thms)
qed

text \<open>
  C7: what the code does where the claim fails. \<open>stop_after\<close> is tested once per chunk, after
  the loop over the lines of a frame. With \<open>stop_after = 1\<close> and a frame that holds two \<open>data:\<close>
  lines, read one byte at a time, both readings are delivered before \<open>stream\<close> returns, and
  \<open>event_count\<close> is 2.
\<close>

theorem stop_after_overshoot:
  "stream 96 demo_lib handle_event (Some 1) None
     (Response 200 (body_of (map (\<lambda>c. [c]) two_line_frame) EndOfStream))
     frozen_clock demo_state
   = Some (None,
       (\<lparr>safe_min = Finite 20, safe_max = Finite 80,
          readings = [\<lparr>temperature = Finite 25.5, timestamp = JStr (str ''t1'')\<rparr>,
                      \<lparr>temperature = Finite 99.9, timestamp = JStr (str ''t2'')\<rparr>]\<rparr>,
        [(Normal, \<lparr>temperature = Finite 25.5, timestamp = JStr (str ''t1'')\<rparr>),
         (Above, \<lparr>temperature = Finite 99.9, timestamp = JStr (str ''t2'')\<rparr>)]),
       2)"
proof -
  have r: "\<not> reached (Some 1) 0" by (simp add: reached_def)
  have l: "length (map (\<lambda>c. [c]) two_line_frame) < 96" by (simp add: two_line_frame_length)
  have ok: "\<not> error_status 200" by (simp add: error_status_def)
  from single_frame_stream[OF bytes_ascii[OF two_line_frame_ascii] two_line_frame_quiet r l ok,
      of demo_lib handle_event frozen_clock demo_state]
  show ?thesis
    by (simp only: bytes_concat two_line_frame_payloads demo_deliveries)
qed

end
